theory Spec2Isabelle
  imports Complex_Main "HOL-Library.Multiset"
begin

section \<open>Python values, strings and request dictionaries\<close>

text \<open>
  The request body is parsed JSON. A value is one of the JSON shapes; a dictionary is an
  association list read with \<open>map_of\<close> (\<open>key in data\<close> is \<open>map_of data key \<noteq> None\<close>).
\<close>

datatype json =
    JNull
  | JBool bool
  | JNum int
  | JStr string
  | JList "json list"
  | JObj "(string \<times> json) list"

type_synonym pydict = "(string \<times> json) list"

text \<open>Python's \<open>str(i)\<close> for a non-negative integer, as used by the f-strings of the source.\<close>

definition digit_char :: "nat \<Rightarrow> char" where
  "digit_char d = char_of (48 + d)"

fun str_nat :: "nat \<Rightarrow> string" where
  "str_nat n = (if n < 10 then [digit_char n] else str_nat (n div 10) @ [digit_char (n mod 10)])"

declare str_nat.simps [simp del]

text \<open>Reading a decimal string back; only used to show that \<open>str_nat\<close> is injective.\<close>

definition digit_val :: "char \<Rightarrow> nat" where
  "digit_val c = of_char c - 48"

definition nat_of_str :: "string \<Rightarrow> nat" where
  "nat_of_str s = foldl (\<lambda>a c. 10 * a + digit_val c) 0 s"

definition is_digit :: "char \<Rightarrow> bool" where
  "is_digit c = (48 \<le> (of_char c :: nat) \<and> (of_char c :: nat) \<le> 57)"

section \<open>parse_blocks (services/generator.py, lines 24-50)\<close>

text \<open>
  Each of the three loops of \<open>parse_blocks\<close> has the shape
  \<^verbatim>\<open>i = 1; while f"{fam}{i}" in data: v = data[f"{fam}{i}"]; <body>; i += 1\<close>.
  \<open>while_key\<close> is that loop with the body as a parameter. It terminates because the
  dictionary is finite and the keys \<open>fam1, fam2, ...\<close> are pairwise different.
\<close>

function while_key :: "string \<Rightarrow> pydict \<Rightarrow> ('a \<Rightarrow> json \<Rightarrow> 'a) \<Rightarrow> nat \<Rightarrow> 'a \<Rightarrow> 'a" where
  "while_key fam data body i acc =
     (case map_of data (fam @ str_nat i) of
        None \<Rightarrow> acc
      | Some v \<Rightarrow> while_key fam data body (Suc i) (body acc v))"
  by pat_completeness auto

text \<open>\<open>if isinstance(block, list) and block: video_blocks.append(block)\<close>\<close>

definition block_body :: "json list list \<Rightarrow> json \<Rightarrow> json list list" where
  "block_body video_blocks block =
     (case block of
        JList b \<Rightarrow> (if b \<noteq> [] then video_blocks @ [b] else video_blocks)
      | _ \<Rightarrow> video_blocks)"

text \<open>\<open>if isinstance(audio_list, list): audio_urls.extend(audio_list)\<close> (the same for voices)\<close>

definition extend_body :: "json list \<Rightarrow> json \<Rightarrow> json list" where
  "extend_body acc v = (case v of JList l \<Rightarrow> acc @ l | _ \<Rightarrow> acc)"

lemma digit_val_digit_char: "d < 10 \<Longrightarrow> digit_val (digit_char d) = d"
  by (simp add: digit_val_def digit_char_def)

lemma nat_of_str_snoc: "nat_of_str (s @ [c]) = 10 * nat_of_str s + digit_val c"
  by (simp add: nat_of_str_def)

lemma nat_of_str_str_nat: "nat_of_str (str_nat n) = n"
proof (induction n rule: str_nat.induct)
  case (1 n)
  show ?case
  proof (cases "n < 10")
    case True
    then show ?thesis
      by (subst str_nat.simps) (simp add: nat_of_str_def digit_val_digit_char)
  next
    case False
    with 1 have "nat_of_str (str_nat (n div 10)) = n div 10" by simp
    with False show ?thesis
      by (subst str_nat.simps) (simp add: nat_of_str_snoc digit_val_digit_char)
  qed
qed

lemma str_nat_inj: "str_nat m = str_nat n \<Longrightarrow> m = n"
  by (metis nat_of_str_str_nat)

lemma is_digit_digit_char: "d < 10 \<Longrightarrow> is_digit (digit_char d)"
  by (simp add: is_digit_def digit_char_def)

lemma str_nat_digits: "c \<in> set (str_nat n) \<Longrightarrow> is_digit c"
proof (induction n rule: str_nat.induct)
  case (1 n)
  show ?case
  proof (cases "n < 10")
    case True
    with "1.prems" show ?thesis
      by (subst (asm) str_nat.simps) (simp add: is_digit_digit_char)
  next
    case False
    with 1 show ?thesis
      by (subst (asm) (2) str_nat.simps) (auto simp add: is_digit_digit_char)
  qed
qed

lemma length_filter_mono: "(\<And>x. x \<in> set xs \<Longrightarrow> P x \<Longrightarrow> Q x) \<Longrightarrow> length (filter P xs) \<le> length (filter Q xs)"
  by (induction xs) auto

lemma length_filter_strict:
  assumes "\<And>x. x \<in> set xs \<Longrightarrow> P x \<Longrightarrow> Q x" and "y \<in> set xs" and "Q y" and "\<not> P y"
  shows "length (filter P xs) < length (filter Q xs)"
  using assms
proof (induction xs)
  case Nil
  then show ?case by simp
next
  case (Cons x xs)
  have le: "length (filter P xs) \<le> length (filter Q xs)"
    using Cons.prems(1) by (intro length_filter_mono) simp
  show ?case
  proof (cases "y = x")
    case True
    with Cons.prems le show ?thesis by simp
  next
    case False
    with Cons.prems have "y \<in> set xs" by simp
    with Cons have "length (filter P xs) < length (filter Q xs)" by simp
    with Cons.prems(1)[of x] show ?thesis by auto
  qed
qed

text \<open>The keys of one family at index \<open>i\<close> or later that the dictionary holds: the loop's measure.\<close>

definition later_keys :: "string \<Rightarrow> pydict \<Rightarrow> nat \<Rightarrow> string list" where
  "later_keys fam data i = filter (\<lambda>k. \<exists>j\<ge>i. k = fam @ str_nat j) (map fst data)"

lemma later_keys_decrease:
  assumes "map_of data (fam @ str_nat i) = Some v"
  shows "length (later_keys fam data (Suc i)) < length (later_keys fam data i)"
proof -
  have mem: "fam @ str_nat i \<in> set (map fst data)"
    using assms by (metis map_of_eq_None_iff option.distinct(1) set_map)
  have notin: "\<not> (\<exists>j\<ge>Suc i. fam @ str_nat i = fam @ str_nat j)"
    by (auto dest: str_nat_inj)
  show ?thesis
    unfolding later_keys_def
  proof (rule length_filter_strict[where y = "fam @ str_nat i"])
    show "fam @ str_nat i \<in> set (map fst data)" by (rule mem)
    show "\<exists>j\<ge>i. fam @ str_nat i = fam @ str_nat j" by blast
    show "\<not> (\<exists>j\<ge>Suc i. fam @ str_nat i = fam @ str_nat j)" by (rule notin)
  qed (auto intro: Suc_leD)
qed

termination while_key
  by (relation "measure (\<lambda>(fam, data, body, i, acc). length (later_keys fam data i))")
     (auto simp: later_keys_decrease)

declare while_key.simps [simp del]

lemma while_key_present:
  assumes "\<And>j. i \<le> j \<Longrightarrow> j < n \<Longrightarrow> map_of data (fam @ str_nat j) \<noteq> None"
    and "map_of data (fam @ str_nat n) = None" and "i \<le> n"
  shows "while_key fam data body i acc
       = foldl body acc (map (\<lambda>j. the (map_of data (fam @ str_nat j))) [i..<n])"
  using assms
proof (induction "n - i" arbitrary: i acc)
  case 0
  then have "i = n" by simp
  with 0 show ?case by (subst while_key.simps) simp
next
  case (Suc k)
  then have lt: "i < n" by simp
  with Suc.prems obtain v where v: "map_of data (fam @ str_nat i) = Some v" by fastforce
  have "while_key fam data body (Suc i) (body acc v)
      = foldl body (body acc v) (map (\<lambda>j. the (map_of data (fam @ str_nat j))) [Suc i..<n])"
    using Suc.hyps(2) Suc.prems lt by (intro Suc.hyps(1)) auto
  with v lt show ?case
    by (subst while_key.simps) (simp add: upt_conv_Cons)
qed


definition parse_blocks :: "pydict \<Rightarrow> json list list \<times> json list \<times> json list" where
  "parse_blocks data =
     (let video_blocks = while_key ''block'' data block_body 1 [];
          audio_urls = while_key ''audio'' data extend_body 1 [];
          voice_configs = while_key ''voice'' data extend_body 1 []
      in (video_blocks, audio_urls, voice_configs))"

text \<open>
  What the loops keep of one entry: a block entry is kept when it is a non-empty list; an
  audio or voice entry contributes its elements when it is a list. \<open>entries data fam n\<close>
  are the values under \<open>fam1 .. famn\<close>, and \<open>scanned data fam n\<close> says that these keys
  are all present and \<open>fam(n+1)\<close> is the first missing one.
\<close>

definition retained :: "json \<Rightarrow> json list list" where
  "retained v = (case v of JList b \<Rightarrow> (if b = [] then [] else [b]) | _ \<Rightarrow> [])"

definition items :: "json \<Rightarrow> json list" where
  "items v = (case v of JList l \<Rightarrow> l | _ \<Rightarrow> [])"

definition entries :: "pydict \<Rightarrow> string \<Rightarrow> nat \<Rightarrow> json list" where
  "entries data fam n = map (\<lambda>j. the (map_of data (fam @ str_nat j))) [1..<Suc n]"

definition scanned :: "pydict \<Rightarrow> string \<Rightarrow> nat \<Rightarrow> bool" where
  "scanned data fam n \<longleftrightarrow>
     (\<forall>j \<in> set [1..<Suc n]. map_of data (fam @ str_nat j) \<noteq> None) \<and>
     map_of data (fam @ str_nat (Suc n)) = None"

lemma foldl_block_body: "foldl block_body acc vs = acc @ concat (map retained vs)"
  by (induction vs arbitrary: acc) (auto simp: block_body_def retained_def split: json.splits)

lemma foldl_extend_body: "foldl extend_body acc vs = acc @ concat (map items vs)"
  by (induction vs arbitrary: acc) (auto simp: extend_body_def items_def split: json.splits)

lemma while_key_scanned:
  assumes "scanned data fam n"
  shows "while_key fam data body (Suc 0) acc = foldl body acc (entries data fam n)"
proof -
  have present: "map_of data (fam @ str_nat j) \<noteq> None" if "Suc 0 \<le> j" and "j < Suc n" for j
    using assms that unfolding scanned_def set_upt by auto
  have absent: "map_of data (fam @ str_nat (Suc n)) = None"
    using assms unfolding scanned_def by blast
  show ?thesis
    unfolding entries_def One_nat_def
    by (rule while_key_present[OF present absent]) auto
qed

lemma scanned_ex: "\<exists>n. scanned data fam n"
proof -
  have ex: "\<exists>j. map_of data (fam @ str_nat (Suc j)) = None"
  proof (rule ccontr)
    assume "\<not> ?thesis"
    then have "\<And>j. fam @ str_nat (Suc j) \<in> fst ` set data"
      by (simp add: map_of_eq_None_iff)
    then have sub: "range (\<lambda>j. fam @ str_nat (Suc j)) \<subseteq> fst ` set data" by auto
    have "inj (\<lambda>j. fam @ str_nat (Suc j))"
      by (auto simp: inj_on_def dest: str_nat_inj)
    moreover have "finite (range (\<lambda>j. fam @ str_nat (Suc j)))"
      using sub by (rule finite_subset) simp
    ultimately have "finite (UNIV :: nat set)"
      by (metis finite_imageD)
    then show False by simp
  qed
  define n where "n = (LEAST j. map_of data (fam @ str_nat (Suc j)) = None)"
  have none: "map_of data (fam @ str_nat (Suc n)) = None"
    unfolding n_def using ex by (rule LeastI_ex)
  have "map_of data (fam @ str_nat (Suc j)) \<noteq> None" if "j < n" for j
    using that unfolding n_def by (rule not_less_Least)
  then have "\<forall>j \<in> set [1..<Suc n]. map_of data (fam @ str_nat j) \<noteq> None"
    by (metis One_nat_def Suc_le_D atLeastLessThan_iff less_Suc_eq_le not_less_eq_eq set_upt Suc_le_mono)
  with none show ?thesis unfolding scanned_def by blast
qed

text \<open>
  Claim C6 (as amended). For every request mapping, each family is scanned at the
  contiguous indices 1, 2, ... and scanning stops at the first missing key of that family.
  Every entry before that key is visited: a block entry that is an empty list (or not a list)
  is skipped and does not stop the scan, and exactly the non-empty lists are retained as
  blocks, in index order; the audio and voice results are the concatenations of the list
  entries.
\<close>

theorem parse_blocks_scan:
  assumes "scanned data ''block'' nb" and "scanned data ''audio'' na" and "scanned data ''voice'' nv"
  shows "parse_blocks data =
           (concat (map retained (entries data ''block'' nb)),
            concat (map items (entries data ''audio'' na)),
            concat (map items (entries data ''voice'' nv)))"
  using assms
  by (simp add: parse_blocks_def while_key_scanned foldl_block_body foldl_extend_body)


definition request_c6 :: pydict where
  "request_c6 =
     [(''block1'', JList [JStr ''a'']), (''block2'', JList []), (''block3'', JList [JStr ''b'']),
      (''audio1'', JList [JStr ''m'']), (''voice1'', JList [JStr ''v''])]"

theorem parse_blocks_scan_witness:
  "scanned request_c6 ''block'' 3 \<and> scanned request_c6 ''audio'' 1 \<and> scanned request_c6 ''voice'' 1 \<and>
   parse_blocks request_c6 = ([[JStr ''a''], [JStr ''b'']], [JStr ''m''], [JStr ''v''])"
proof -
  have b: "scanned request_c6 ''block'' 3" by code_simp
  have a: "scanned request_c6 ''audio'' 1" by code_simp
  have v: "scanned request_c6 ''voice'' 1" by code_simp
  have eb: "concat (map retained (entries request_c6 ''block'' 3)) = [[JStr ''a''], [JStr ''b'']]"
    by code_simp
  have ea: "concat (map items (entries request_c6 ''audio'' 1)) = [JStr ''m'']"
    by code_simp
  have ev: "concat (map items (entries request_c6 ''voice'' 1)) = [JStr ''v'']"
    by code_simp
  show ?thesis
    using parse_blocks_scan[OF b a v] b a v unfolding eb ea ev by simp
qed

text \<open>
  The claim as the specification states it fails: \<open>block2\<close> is an empty list, yet the scan
  goes on and \<open>block3\<close> is retained.
\<close>

theorem parse_blocks_empty_entry_counterexample:
  "map_of request_c6 ''block2'' = Some (JList []) \<and>
   map_of request_c6 ''block3'' = Some (JList [JStr ''b'']) \<and>
   [JStr ''b''] \<in> set (fst (parse_blocks request_c6))"
  by code_simp

section \<open>The outside world: outcomes, effects and errors\<close>

text \<open>
  Everything the service does outside its own process (HTTP requests, ffmpeg and ffprobe
  runs, the file system, the speech and storage backends) is a field of \<open>world\<close>: the
  outcome the environment gives for one call, keyed by the call's arguments. Output paths
  differ from call to call, so two calls never have to share an outcome. The calls a
  function makes are returned beside its result, as a list of events in call order.
  Logging is not modelled. The ffmpeg and ffprobe executables are taken to be installed
  (spawning them does not raise), and removing a file the task has just written succeeds.
\<close>

type_synonym path = string

datatype error =
    ValueError string
  | Exception string
  | KeyError string
  | TypeError
  | OSError

text \<open>
  An HTTP exchange either fails in transport (connection error, timeout, malformed URL), or
  yields a status line; the body then either arrives (\<open>Some bytes\<close>) or fails while it is
  read (\<open>None\<close>).
\<close>

datatype http_result =
    TransportError
  | Response nat "string option"

text \<open>
  The dictionary \<open>get_video_info\<close> builds from ffprobe's output. Frame rate and duration
  are Python floats computed from ffprobe's rationals; the model keeps them as exact
  rationals. A failed probe returns the empty dictionary, modelled as \<open>None\<close>.
\<close>

record video_info =
  duration :: rat
  size_info :: int
  video_codec :: "string option"
  width :: "int option"
  height :: "int option"
  fps :: rat
  audio_codec :: "string option"
  sample_rate :: "string option"

datatype event =
    HttpGet json int
  | WriteFile path string
  | CopyFile path path
  | Probe path
  | Demuxer "path list" path
  | Filter "path list" path
  | Unlink path
  | Mkdtemp string path
  | Synthesize json string path
  | SilentClip path nat
  | Mix path path path
  | Render path path path
  | Upload path string
  | Progress nat nat
  | Rmtree path

record world =
  http_get :: "json \<Rightarrow> path \<Rightarrow> http_result"
  write_ok :: "path \<Rightarrow> bool"
  path_exists :: "path \<Rightarrow> bool"
  copy_ok :: "path \<Rightarrow> path \<Rightarrow> bool"
  ffprobe :: "path \<Rightarrow> video_info option"
  demuxer_ok :: "path list \<Rightarrow> path \<Rightarrow> bool"
  filter_ok :: "path list \<Rightarrow> path \<Rightarrow> bool"
  mkdtemp :: "string \<Rightarrow> path"
  has_client :: bool
  available_voices :: "path \<Rightarrow> (string \<times> string) list"
  convert_ok :: "json \<Rightarrow> string \<Rightarrow> path \<Rightarrow> bool"
  mix_ok :: "path \<Rightarrow> path \<Rightarrow> path \<Rightarrow> bool"
  render_ok :: "path \<Rightarrow> path \<Rightarrow> path \<Rightarrow> bool"
  upload_ok :: "path \<Rightarrow> string \<Rightarrow> bool"

section \<open>services/download.py\<close>

definition download_file :: "world \<Rightarrow> json \<Rightarrow> path \<Rightarrow> int \<Rightarrow> bool \<times> event list" where
  "download_file w url dest_path timeout =
     (case http_get w url dest_path of
        TransportError \<Rightarrow> (False, [HttpGet url timeout])
      | Response status body \<Rightarrow>
          (if status = 200 then
             (case body of
                None \<Rightarrow> (False, [HttpGet url timeout])
              | Some bytes \<Rightarrow>
                  (if write_ok w dest_path
                   then (True, [HttpGet url timeout, WriteFile dest_path bytes])
                   else (False, [HttpGet url timeout])))
           else (False, [HttpGet url timeout])))"

text \<open>
  Claim C9 (as amended). \<open>download_file\<close> returns success exactly when the response status
  is 200, its body was received and the write to the destination succeeded, and it has then
  written the received bytes to the destination. It returns failure for every response with
  a status other than 200 (other 2xx codes included) and for every transport error, whether
  before the response or while the body is read.
\<close>

theorem download_file_status:
  "(fst (download_file w url dest_path timeout) \<longleftrightarrow>
      (\<exists>bytes. http_get w url dest_path = Response 200 (Some bytes) \<and> write_ok w dest_path)) \<and>
   (\<forall>bytes. http_get w url dest_path = Response 200 (Some bytes) \<and> write_ok w dest_path \<longrightarrow>
      download_file w url dest_path timeout = (True, [HttpGet url timeout, WriteFile dest_path bytes])) \<and>
   (\<forall>status body. http_get w url dest_path = Response status body \<and> status \<noteq> 200 \<longrightarrow>
      \<not> fst (download_file w url dest_path timeout)) \<and>
   (http_get w url dest_path = TransportError \<or> (\<exists>status. http_get w url dest_path = Response status None) \<longrightarrow>
      \<not> fst (download_file w url dest_path timeout))"
  by (auto simp: download_file_def split: http_result.splits option.splits)

text \<open>A world in which every external call succeeds, and variations of it.\<close>

definition world_ok :: world where
  "world_ok = \<lparr>
     http_get = (\<lambda>url dest. Response 200 (Some ''data'')),
     write_ok = (\<lambda>p. True),
     path_exists = (\<lambda>p. True),
     copy_ok = (\<lambda>src dst. True),
     ffprobe = (\<lambda>p. None),
     demuxer_ok = (\<lambda>ps out. True),
     filter_ok = (\<lambda>ps out. True),
     mkdtemp = (\<lambda>prefix. ''/tmp/'' @ prefix @ ''x''),
     has_client = True,
     available_voices = (\<lambda>p. [(''Rachel'', ''id1'')]),
     convert_ok = (\<lambda>text vid p. True),
     mix_ok = (\<lambda>a t out. True),
     render_ok = (\<lambda>v a out. True),
     upload_ok = (\<lambda>p dest. True) \<rparr>"


section \<open>services/video.py\<close>

text \<open>
  \<open>get_video_info\<close> (lines 11-44) runs ffprobe; \<open>info.get(key)\<close> on its result is
  \<open>None\<close> for a missing key and \<open>info.get('fps', 0)\<close> is 0.
\<close>

definition get_video_info :: "world \<Rightarrow> path \<Rightarrow> video_info option \<times> event list" where
  "get_video_info w video_path = (ffprobe w video_path, [Probe video_path])"

definition get_video_codec :: "video_info option \<Rightarrow> string option" where
  "get_video_codec info = (case info of None \<Rightarrow> None | Some i \<Rightarrow> video_codec i)"

definition get_width :: "video_info option \<Rightarrow> int option" where
  "get_width info = (case info of None \<Rightarrow> None | Some i \<Rightarrow> width i)"

definition get_height :: "video_info option \<Rightarrow> int option" where
  "get_height info = (case info of None \<Rightarrow> None | Some i \<Rightarrow> height i)"

definition get_fps :: "video_info option \<Rightarrow> rat" where
  "get_fps info = (case info of None \<Rightarrow> 0 | Some i \<Rightarrow> fps i)"

text \<open>\<open>check_videos_compatible\<close> (lines 47-68): the loop over \<open>infos[1:]\<close>, then the function.\<close>

fun compatible_loop :: "video_info option \<Rightarrow> video_info option list \<Rightarrow> bool" where
  "compatible_loop first [] = True"
| "compatible_loop first (info # rest) =
     (if get_video_codec info \<noteq> get_video_codec first then False
      else if get_width info \<noteq> get_width first \<or> get_height info \<noteq> get_height first then False
      else if \<bar>get_fps info - get_fps first\<bar> > 1 / 100 then False
      else compatible_loop first rest)"

definition check_videos_compatible :: "world \<Rightarrow> path list \<Rightarrow> bool \<times> event list" where
  "check_videos_compatible w video_paths =
     (if length video_paths < 2 then (True, [])
      else
        (let probes = map (get_video_info w) video_paths;
             infos = map fst probes;
             first = hd infos
         in (compatible_loop first (tl infos), concat (map snd probes))))"

text \<open>
  The two concatenation methods run ffmpeg and catch every exception (lines 105-211); their
  result is the environment's.
\<close>

definition concatenate_with_demuxer :: "world \<Rightarrow> path list \<Rightarrow> path \<Rightarrow> bool \<times> event list" where
  "concatenate_with_demuxer w video_paths output_path =
     (demuxer_ok w video_paths output_path, [Demuxer video_paths output_path])"

definition concatenate_with_filter :: "world \<Rightarrow> path list \<Rightarrow> path \<Rightarrow> bool \<times> event list" where
  "concatenate_with_filter w video_paths output_path =
     (filter_ok w video_paths output_path, [Filter video_paths output_path])"

text \<open>
  \<open>concatenate_videos\<close> (lines 71-102). \<open>shutil.copy2\<close> is not guarded by a
  \<open>try\<close>, so a failing copy raises.
\<close>

definition concatenate_videos :: "world \<Rightarrow> path list \<Rightarrow> path \<Rightarrow> (error + bool) \<times> event list" where
  "concatenate_videos w video_paths output_path =
     (if video_paths = [] then (Inr False, [])
      else if \<not> list_all (path_exists w) video_paths then (Inr False, [])
      else if length video_paths = 1 then
        (if copy_ok w (hd video_paths) output_path
         then (Inr True, [CopyFile (hd video_paths) output_path])
         else (Inl OSError, [CopyFile (hd video_paths) output_path]))
      else
        (case check_videos_compatible w video_paths of
           (compatible, ev) \<Rightarrow>
             (if compatible then
                (case concatenate_with_demuxer w video_paths output_path of
                   (ok, ev1) \<Rightarrow>
                     (if ok then (Inr True, ev @ ev1)
                      else (case concatenate_with_filter w video_paths output_path of
                              (ok2, ev2) \<Rightarrow> (Inr ok2, ev @ ev1 @ ev2))))
              else
                (case concatenate_with_filter w video_paths output_path of
                   (ok2, ev2) \<Rightarrow> (Inr ok2, ev @ ev2)))))"










text \<open>
  Claim C10. For an empty list, and for a list with a path that does not exist,
  \<open>concatenate_videos\<close> returns \<open>False\<close> without raising and without any external call:
  no probe, no stream copy, no re-encoding, no file copy.
\<close>

theorem concatenate_videos_rejects:
  assumes "video_paths = [] \<or> (\<exists>p \<in> set video_paths. \<not> path_exists w p)"
  shows "concatenate_videos w video_paths output_path = (Inr False, [])"
  using assms by (auto simp: concatenate_videos_def list_all_iff)


definition world_203 :: world where
  "world_203 = world_ok\<lparr>http_get := (\<lambda>url dest. Response 203 (Some ''data''))\<rparr>"

definition world_timeout :: world where
  "world_timeout = world_ok\<lparr>http_get := (\<lambda>url dest. TransportError)\<rparr>"

definition world_not_found :: world where
  "world_not_found = world_ok\<lparr>http_get := (\<lambda>url dest. Response 404 (Some ''gone''))\<rparr>"

theorem download_file_status_witness:
  "http_get world_ok (JStr ''http://h/a.mp4'') ''/tmp/a.mp4'' = Response 200 (Some ''data'') \<and>
   write_ok world_ok ''/tmp/a.mp4'' \<and>
   download_file world_ok (JStr ''http://h/a.mp4'') ''/tmp/a.mp4'' 300 =
     (True, [HttpGet (JStr ''http://h/a.mp4'') 300, WriteFile ''/tmp/a.mp4'' ''data'']) \<and>
   http_get world_not_found (JStr ''http://h/a.mp4'') ''/tmp/a.mp4'' = Response 404 (Some ''gone'') \<and>
   \<not> fst (download_file world_not_found (JStr ''http://h/a.mp4'') ''/tmp/a.mp4'' 300) \<and>
   http_get world_timeout (JStr ''http://h/a.mp4'') ''/tmp/a.mp4'' = TransportError \<and>
   \<not> fst (download_file world_timeout (JStr ''http://h/a.mp4'') ''/tmp/a.mp4'' 300)"
proof -
  have h: "http_get world_ok (JStr ''http://h/a.mp4'') ''/tmp/a.mp4'' = Response 200 (Some ''data'') \<and>
           write_ok world_ok ''/tmp/a.mp4''"
    by (simp add: world_ok_def)
  have n: "http_get world_not_found (JStr ''http://h/a.mp4'') ''/tmp/a.mp4'' = Response 404 (Some ''gone'')"
    by (simp add: world_not_found_def)
  have t: "http_get world_timeout (JStr ''http://h/a.mp4'') ''/tmp/a.mp4'' = TransportError"
    by (simp add: world_timeout_def)
  have ne: "(404::nat) \<noteq> 200" by simp
  from download_file_status[of world_ok "JStr ''http://h/a.mp4''" "''/tmp/a.mp4''" 300] h
  have 1: "download_file world_ok (JStr ''http://h/a.mp4'') ''/tmp/a.mp4'' 300 =
     (True, [HttpGet (JStr ''http://h/a.mp4'') 300, WriteFile ''/tmp/a.mp4'' ''data''])"
    by blast
  from download_file_status[of world_not_found "JStr ''http://h/a.mp4''" "''/tmp/a.mp4''" 300] n ne
  have 2: "\<not> fst (download_file world_not_found (JStr ''http://h/a.mp4'') ''/tmp/a.mp4'' 300)"
    by blast
  from download_file_status[of world_timeout "JStr ''http://h/a.mp4''" "''/tmp/a.mp4''" 300] t
  have 3: "\<not> fst (download_file world_timeout (JStr ''http://h/a.mp4'') ''/tmp/a.mp4'' 300)"
    by blast
  from h n t 1 2 3 show ?thesis by blast
qed

text \<open>The claim as stated fails for a 2xx status other than 200: a 203 response is a failure.\<close>

theorem download_file_2xx_counterexample:
  "http_get world_203 (JStr ''http://h/a.mp4'') ''/tmp/a.mp4'' = Response 203 (Some ''data'') \<and>
   (200::nat) \<le> 203 \<and> (203::nat) < 300 \<and>
   \<not> fst (download_file world_203 (JStr ''http://h/a.mp4'') ''/tmp/a.mp4'' 300)"
  by (simp add: download_file_def world_203_def world_ok_def)




theorem concatenate_videos_rejects_witness:
  "\<not> path_exists (world_ok\<lparr>path_exists := (\<lambda>p. p \<noteq> ''/tmp/b.mp4'')\<rparr>) ''/tmp/b.mp4'' \<and>
   concatenate_videos (world_ok\<lparr>path_exists := (\<lambda>p. p \<noteq> ''/tmp/b.mp4'')\<rparr>)
     [''/tmp/a.mp4'', ''/tmp/b.mp4''] ''/tmp/out.mp4'' = (Inr False, []) \<and>
   concatenate_videos world_ok [] ''/tmp/out.mp4'' = (Inr False, [])"
proof -
  let ?w = "world_ok\<lparr>path_exists := (\<lambda>p. p \<noteq> ''/tmp/b.mp4'')\<rparr>"
  have missing: "\<not> path_exists ?w ''/tmp/b.mp4''" by simp
  then have "[''/tmp/a.mp4'', ''/tmp/b.mp4''] = [] \<or>
             (\<exists>p \<in> set [''/tmp/a.mp4'', ''/tmp/b.mp4'']. \<not> path_exists ?w p)"
    by simp
  from concatenate_videos_rejects[OF this] concatenate_videos_rejects[of "[]" world_ok] missing
  show ?thesis by simp
qed


section \<open>services/tts.py\<close>

text \<open>
  \<open>get_voice_id\<close> (lines 36-50) looks the voice name up in the catalogue (a dictionary
  from names to ids, in insertion order) and falls back to the first voice. The lookup
  \<open>voices.get(voice_name)\<close> raises \<open>TypeError\<close> for an unhashable name (a JSON list or
  object). \<open>available_voices\<close> is the catalogue \<open>get_available_voices\<close> returns during
  the call for one output path: empty when the backend cannot be reached.
\<close>

definition get_voice_id :: "(string \<times> string) list \<Rightarrow> json \<Rightarrow> error + string option" where
  "get_voice_id voices voice_name =
     (if voices = [] then Inr None
      else
        (case voice_name of
           JList _ \<Rightarrow> Inl TypeError
         | JObj _ \<Rightarrow> Inl TypeError
         | JStr name \<Rightarrow>
             (case map_of voices name of
                Some voice_id \<Rightarrow>
                  (if voice_id \<noteq> [] then Inr (Some voice_id) else Inr (Some (snd (hd voices))))
              | None \<Rightarrow> Inr (Some (snd (hd voices))))
         | _ \<Rightarrow> Inr (Some (snd (hd voices)))))"

text \<open>
  \<open>generate_speech\<close> (lines 52-83): the voice lookup is outside the \<open>try\<close>, the
  conversion and the write are inside it.
\<close>

definition generate_speech :: "world \<Rightarrow> json \<Rightarrow> json \<Rightarrow> path \<Rightarrow> (error + bool) \<times> event list" where
  "generate_speech w text voice output_path =
     (if \<not> has_client w then (Inr False, [])
      else
        (case get_voice_id (available_voices w output_path) voice of
           Inl e \<Rightarrow> (Inl e, [])
         | Inr None \<Rightarrow> (Inr False, [])
         | Inr (Some voice_id) \<Rightarrow>
             (if voice_id = [] then (Inr False, [])
              else (Inr (convert_ok w text voice_id output_path),
                    [Synthesize text voice_id output_path]))))"

section \<open>services/generator.py\<close>

text \<open>
  The settings the generator reads (settings.py); the two volume settings only appear in
  the ffmpeg command line and are left out.
\<close>

record config =
  max_concurrent_jobs :: int
  download_timeout :: int
  gcs_bucket_name :: string

text \<open>
  Sequencing of two steps that may raise: the events of both are kept in order, and an
  exception of the first step skips the second.
\<close>

definition then_do ::
  "(error + 'a) \<times> event list \<Rightarrow> ('a \<Rightarrow> (error + 'b) \<times> event list) \<Rightarrow> (error + 'b) \<times> event list" where
  "then_do m f =
     (case m of
        (Inl e, ev) \<Rightarrow> (Inl e, ev)
      | (Inr x, ev) \<Rightarrow> (case f x of (r, ev') \<Rightarrow> (r, ev @ ev')))"

text \<open>\<open>v[k]\<close> for a string key: \<open>KeyError\<close> on a dictionary without the key, \<open>TypeError\<close> on anything that is not a dictionary.\<close>

definition subscript :: "json \<Rightarrow> string \<Rightarrow> error + json" where
  "subscript v k =
     (case v of
        JObj kvs \<Rightarrow> (case map_of kvs k of None \<Rightarrow> Inl (KeyError k) | Some x \<Rightarrow> Inr x)
      | _ \<Rightarrow> Inl TypeError)"

text \<open>The file names the generator builds under the task's temporary directory.\<close>

definition block_video_path :: "path \<Rightarrow> string \<Rightarrow> nat \<Rightarrow> path" where
  "block_video_path temp_dir bname idx = temp_dir @ ''/'' @ bname @ ''_video_'' @ str_nat idx @ ''.mp4''"

definition tts_path :: "path \<Rightarrow> nat \<Rightarrow> path" where
  "tts_path temp_dir idx = temp_dir @ ''/tts_'' @ str_nat idx @ ''.mp3''"

definition audio_path_of :: "path \<Rightarrow> nat \<Rightarrow> path" where
  "audio_path_of temp_dir idx = temp_dir @ ''/audio_'' @ str_nat idx @ ''.mp3''"

definition mixed_path_of :: "path \<Rightarrow> nat \<Rightarrow> path" where
  "mixed_path_of temp_dir idx = temp_dir @ ''/mixed_'' @ str_nat idx @ ''.mp3''"

text \<open>\<open>process_video_block\<close> (lines 52-76): the download loop, then the concatenation.\<close>

fun download_videos ::
  "config \<Rightarrow> world \<Rightarrow> string \<Rightarrow> path \<Rightarrow> nat \<Rightarrow> json list \<Rightarrow> (error + path list) \<times> event list" where
  "download_videos cfg w bname temp_dir idx [] = (Inr [], [])"
| "download_videos cfg w bname temp_dir idx (url # rest) =
     (let video_path = block_video_path temp_dir bname idx in
      case download_file w url video_path (download_timeout cfg) of
        (ok, ev) \<Rightarrow>
          (if ok then
             then_do (Inr (), ev) (\<lambda>_.
             then_do (download_videos cfg w bname temp_dir (Suc idx) rest) (\<lambda>downloaded.
               (Inr (video_path # downloaded), [])))
           else (Inl (Exception (''Failed to download '' @ bname @ '' video '' @ str_nat idx)), ev)))"

definition process_video_block ::
  "config \<Rightarrow> world \<Rightarrow> json list \<Rightarrow> string \<Rightarrow> path \<Rightarrow> (error + path) \<times> event list" where
  "process_video_block cfg w video_urls bname temp_dir =
     then_do (download_videos cfg w bname temp_dir 0 video_urls) (\<lambda>downloaded_videos.
       (let concatenated_path = temp_dir @ ''/'' @ bname @ ''_concatenated.mp4'' in
        then_do (concatenate_videos w downloaded_videos concatenated_path) (\<lambda>ok.
          (if ok then (Inr concatenated_path, map Unlink downloaded_videos)
           else (Inl (Exception (bname @ '': Concatenation failed'')), [])))))"

text \<open>
  \<open>generate_all_tts\<close> (lines 78-110). When \<open>generate_speech\<close> returns \<open>False\<close> the loop
  runs ffmpeg for one second of silence (\<open>SilentClip path 1\<close>); the exit status of that run
  is not checked. The path is appended in both cases.
\<close>

fun tts_loop :: "world \<Rightarrow> path \<Rightarrow> nat \<Rightarrow> json list \<Rightarrow> (error + path list) \<times> event list" where
  "tts_loop w temp_dir idx [] = (Inr [], [])"
| "tts_loop w temp_dir idx (voice_config # rest) =
     (let voice_path = tts_path temp_dir idx in
      case subscript voice_config ''text'' of
        Inl e \<Rightarrow> (Inl e, [])
      | Inr text \<Rightarrow>
          (case subscript voice_config ''voice'' of
             Inl e \<Rightarrow> (Inl e, [])
           | Inr voice \<Rightarrow>
               then_do (generate_speech w text voice voice_path) (\<lambda>success.
               then_do (Inr (), if \<not> success then [SilentClip voice_path 1] else []) (\<lambda>_.
               then_do (tts_loop w temp_dir (Suc idx) rest) (\<lambda>tts_files.
                 (Inr (voice_path # tts_files), []))))))"

definition generate_all_tts :: "world \<Rightarrow> json list \<Rightarrow> path \<Rightarrow> (error + path list) \<times> event list" where
  "generate_all_tts w voice_configs temp_dir = tts_loop w temp_dir 0 voice_configs"

text \<open>\<open>download_all_audio\<close> (lines 112-129).\<close>

fun audio_loop :: "config \<Rightarrow> world \<Rightarrow> path \<Rightarrow> nat \<Rightarrow> json list \<Rightarrow> (error + path list) \<times> event list" where
  "audio_loop cfg w temp_dir idx [] = (Inr [], [])"
| "audio_loop cfg w temp_dir idx (url # rest) =
     (let audio_path = audio_path_of temp_dir idx in
      case download_file w url audio_path (download_timeout cfg) of
        (ok, ev) \<Rightarrow>
          (if ok then
             then_do (Inr (), ev) (\<lambda>_.
             then_do (audio_loop cfg w temp_dir (Suc idx) rest) (\<lambda>audio_files.
               (Inr (audio_path # audio_files), [])))
           else (Inl (Exception (''Failed to download audio '' @ str_nat idx)), ev)))"

definition download_all_audio :: "config \<Rightarrow> world \<Rightarrow> json list \<Rightarrow> path \<Rightarrow> (error + path list) \<times> event list" where
  "download_all_audio cfg w audio_urls temp_dir = audio_loop cfg w temp_dir 0 audio_urls"

text \<open>\<open>mix_audio_tracks\<close> (lines 131-152) and \<open>create_audio_mixes\<close> (lines 154-184).\<close>

definition mix_audio_tracks :: "world \<Rightarrow> path \<Rightarrow> path \<Rightarrow> path \<Rightarrow> bool \<times> event list" where
  "mix_audio_tracks w background_audio voice_audio output_path =
     (mix_ok w background_audio voice_audio output_path,
      [Mix background_audio voice_audio output_path])"

fun mix_loop :: "world \<Rightarrow> path \<Rightarrow> nat \<Rightarrow> (path \<times> path) list \<Rightarrow> path list \<times> event list" where
  "mix_loop w temp_dir idx [] = ([], [])"
| "mix_loop w temp_dir idx ((audio, tts) # rest) =
     (let mixed_path = mixed_path_of temp_dir idx in
      case mix_audio_tracks w audio tts mixed_path of
        (success, ev) \<Rightarrow>
          (case mix_loop w temp_dir (Suc idx) rest of
             (mixed_audio_files, ev') \<Rightarrow>
               (if success then (mixed_path # mixed_audio_files, ev @ ev')
                else (mixed_audio_files, ev @ ev'))))"

definition create_audio_mixes :: "world \<Rightarrow> path list \<Rightarrow> path list \<Rightarrow> path \<Rightarrow> path list \<times> event list" where
  "create_audio_mixes w audio_files tts_files temp_dir =
     mix_loop w temp_dir 0 (List.product audio_files tts_files)"

text \<open>
  \<open>add_audio_to_video\<close> (lines 186-211) and \<open>GCSUploadService.upload_file\<close>
  (storage_service.py, lines 23-44); both catch every exception.
\<close>

definition add_audio_to_video :: "world \<Rightarrow> path \<Rightarrow> path \<Rightarrow> path \<Rightarrow> bool \<times> event list" where
  "add_audio_to_video w video_path audio_path output_path =
     (render_ok w video_path audio_path output_path, [Render video_path audio_path output_path])"

definition upload_file :: "config \<Rightarrow> world \<Rightarrow> path \<Rightarrow> string \<Rightarrow> string option \<times> event list" where
  "upload_file cfg w local_path destination_blob_name =
     (if upload_ok w local_path destination_blob_name
      then Some (''https://storage.googleapis.com/'' @ gcs_bucket_name cfg @ ''/'' @ destination_blob_name)
      else None,
      [Upload local_path destination_blob_name])"

text \<open>
  \<open>generate_all\<close>, lines 222-252: parsing, validation, the temporary directory and the
  four preparation steps. \<open>staged\<close> holds the local variables the render stage reads.
\<close>

fun blocks_loop ::
  "config \<Rightarrow> world \<Rightarrow> path \<Rightarrow> nat \<Rightarrow> json list list \<Rightarrow> (error + (string \<times> path) list) \<times> event list" where
  "blocks_loop cfg w temp_dir idx [] = (Inr [], [])"
| "blocks_loop cfg w temp_dir idx (video_urls # rest) =
     (let bname = ''block'' @ str_nat (idx + 1) in
      then_do (process_video_block cfg w video_urls bname temp_dir) (\<lambda>concatenated.
      then_do (blocks_loop cfg w temp_dir (Suc idx) rest) (\<lambda>base_videos.
        (Inr ((bname, concatenated) # base_videos), []))))"

record staged =
  temp_dir_of :: path
  base_videos_of :: "(string \<times> path) list"
  audio_files_of :: "path list"
  tts_files_of :: "path list"
  mixed_audio_files_of :: "path list"

definition temp_prefix :: "string \<Rightarrow> string" where
  "temp_prefix task_id = ''task_'' @ task_id @ ''_''"

definition prepare :: "config \<Rightarrow> world \<Rightarrow> string \<Rightarrow> pydict \<Rightarrow> (error + staged) \<times> event list" where
  "prepare cfg w task_id data =
     (case parse_blocks data of
        (video_blocks, audio_urls, voice_configs) \<Rightarrow>
          (if video_blocks = [] then (Inl (ValueError ''No video blocks found''), [])
           else if audio_urls = [] then (Inl (ValueError ''No audio URLs found''), [])
           else if voice_configs = [] then (Inl (ValueError ''No voice configs found''), [])
           else
             (let temp_dir = mkdtemp w (temp_prefix task_id) in
              then_do (Inr (), [Mkdtemp (temp_prefix task_id) temp_dir]) (\<lambda>_.
              then_do (blocks_loop cfg w temp_dir 0 video_blocks) (\<lambda>base_videos.
              then_do (download_all_audio cfg w audio_urls temp_dir) (\<lambda>audio_files.
              then_do (generate_all_tts w voice_configs temp_dir) (\<lambda>tts_files.
                (case create_audio_mixes w audio_files tts_files temp_dir of
                   (mixed_audio_files, ev) \<Rightarrow>
                     (Inr \<lparr>temp_dir_of = temp_dir, base_videos_of = base_videos,
                           audio_files_of = audio_files, tts_files_of = tts_files,
                           mixed_audio_files_of = mixed_audio_files\<rparr>, ev)))))))))"


text \<open>
  \<open>generate_all\<close>, lines 254-317: the render stage. Every variant is one coroutine
  \<open>generate_final_video\<close>; all of them run under \<open>asyncio.gather\<close> on one event loop, so
  the code between two \<open>await\<close>s runs without interleaving. A coroutine waits for the
  semaphore (\<open>Waiting\<close>), then for the executor to return from \<open>add_audio_to_video\<close>
  (\<open>Rendering\<close>), then, after a successful render, for the executor to return from
  \<open>upload_file\<close> (\<open>Uploading\<close>). \<open>advance c i st\<close> resumes coroutine \<open>i\<close> and runs it
  to its next \<open>await\<close> or to its end; it is \<open>None\<close> when the coroutine cannot be resumed
  (it has ended, or it waits for a semaphore that has no free slot). The order in which
  coroutines are resumed is the schedule, a list of task indices chosen by the event loop
  and the environment; an entry that cannot be resumed is skipped. An executor call is
  recorded when it returns. The progress callback is the one of routes.py, which neither
  suspends nor raises; \<open>c_callback\<close> tells whether a callback was passed.
\<close>

datatype phase = Waiting | Rendering | Uploading | Finished

record results =
  successful :: "(string \<times> string) list"
  failed :: "string list"
  total_variants :: nat
  urls :: "string list"
  err :: "error option"

record rstate =
  phases :: "phase list"
  res :: results
  completed :: nat
  emitted :: "event list"

record closure =
  c_cfg :: config
  c_world :: world
  c_task_id :: string
  c_temp_dir :: path
  c_callback :: bool
  c_total :: nat
  c_tasks :: "(string \<times> path \<times> path \<times> nat) list"

definition variant_id :: "string \<Rightarrow> string \<Rightarrow> nat \<Rightarrow> string" where
  "variant_id task_id bname variant_num = task_id @ ''_'' @ bname @ ''_v'' @ str_nat variant_num"

definition truthy :: "string option \<Rightarrow> bool" where
  "truthy url = (case url of None \<Rightarrow> False | Some u \<Rightarrow> u \<noteq> [])"

definition holders :: "rstate \<Rightarrow> nat" where
  "holders st = length (filter (\<lambda>p. p = Rendering \<or> p = Uploading) (phases st))"

definition finish_unit :: "closure \<Rightarrow> nat \<Rightarrow> rstate \<Rightarrow> rstate" where
  "finish_unit c i st =
     st\<lparr>completed := Suc (completed st),
        emitted := emitted st @ (if c_callback c then [Progress (Suc (completed st)) (c_total c)] else []),
        phases := (phases st)[i := Finished]\<rparr>"

definition advance :: "closure \<Rightarrow> nat \<Rightarrow> rstate \<Rightarrow> rstate option" where
  "advance c i st =
     (if length (phases st) \<le> i \<or> length (c_tasks c) \<le> i then None
      else
        (case c_tasks c ! i of
           (bname, base_video, mixed_audio, variant_num) \<Rightarrow>
             (let vid = variant_id (c_task_id c) bname variant_num;
                  local_output_path = c_temp_dir c @ ''/'' @ vid @ ''.mp4''
              in case phases st ! i of
                   Waiting \<Rightarrow>
                     (if int (holders st) < max_concurrent_jobs (c_cfg c)
                      then Some (st\<lparr>phases := (phases st)[i := Rendering]\<rparr>)
                      else None)
                 | Rendering \<Rightarrow>
                     (case add_audio_to_video (c_world c) base_video mixed_audio local_output_path of
                        (success, ev) \<Rightarrow>
                          (if success
                           then Some (st\<lparr>phases := (phases st)[i := Uploading],
                                         emitted := emitted st @ ev\<rparr>)
                           else Some (finish_unit c i
                                        (st\<lparr>res := (res st)\<lparr>failed := failed (res st) @ [vid]\<rparr>,
                                            emitted := emitted st @ ev\<rparr>))))
                 | Uploading \<Rightarrow>
                     (case upload_file (c_cfg c) (c_world c) local_output_path
                             (c_task_id c @ ''/'' @ vid @ ''.mp4'') of
                        (url, ev) \<Rightarrow>
                          Some (finish_unit c i
                                  (st\<lparr>res := (if truthy url
                                                then (res st)\<lparr>successful :=
                                                       successful (res st) @ [(vid @ ''_url'', the url)]\<rparr>
                                                else (res st)\<lparr>failed := failed (res st) @ [vid]\<rparr>),
                                      emitted := emitted st @ ev @ [Unlink local_output_path]\<rparr>)))
                 | Finished \<Rightarrow> None)))"

fun run_sched :: "closure \<Rightarrow> nat list \<Rightarrow> rstate \<Rightarrow> rstate" where
  "run_sched c [] st = st"
| "run_sched c (i # sched) st =
     run_sched c sched (case advance c i st of None \<Rightarrow> st | Some st' \<Rightarrow> st')"

definition make_tasks :: "(string \<times> path) list \<Rightarrow> path list \<Rightarrow> (string \<times> path \<times> path \<times> nat) list" where
  "make_tasks base_videos mixed_audio_files =
     map (\<lambda>(variant_counter, ((bname, base_video), mixed_audio)).
            (bname, base_video, mixed_audio, variant_counter))
       (enumerate 1 (List.product base_videos mixed_audio_files))"

definition render_closure :: "config \<Rightarrow> world \<Rightarrow> string \<Rightarrow> bool \<Rightarrow> staged \<Rightarrow> closure" where
  "render_closure cfg w task_id cb s =
     \<lparr>c_cfg = cfg, c_world = w, c_task_id = task_id, c_temp_dir = temp_dir_of s, c_callback = cb,
      c_total = length (base_videos_of s) * length (mixed_audio_files_of s),
      c_tasks = make_tasks (base_videos_of s) (mixed_audio_files_of s)\<rparr>"

definition init_rstate :: "results \<Rightarrow> nat \<Rightarrow> rstate" where
  "init_rstate r n = \<lparr>phases = replicate n Waiting, res = r, completed = 0, emitted = []\<rparr>"

definition all_finished :: "rstate \<Rightarrow> bool" where
  "all_finished st = list_all (\<lambda>p. p = Finished) (phases st)"

text \<open>
  \<open>generate_all\<close> (lines 213-329). The result is \<open>None\<close> when, under the given
  schedule, \<open>asyncio.gather\<close> has not returned: some coroutine has not ended. A negative
  semaphore value makes \<open>asyncio.Semaphore\<close> raise \<open>ValueError\<close>. The stored error is the
  exception whose \<open>str\<close> the source stores.
\<close>

definition empty_results :: results where
  "empty_results = \<lparr>successful = [], failed = [], total_variants = 0, urls = [], err = None\<rparr>"

definition render_state :: "config \<Rightarrow> world \<Rightarrow> string \<Rightarrow> bool \<Rightarrow> staged \<Rightarrow> nat list \<Rightarrow> rstate" where
  "render_state cfg w task_id cb s sched =
     (let c = render_closure cfg w task_id cb s;
          results = empty_results\<lparr>total_variants := c_total c\<rparr>
      in run_sched c sched (init_rstate results (length (c_tasks c))))"

definition generate_all ::
  "config \<Rightarrow> world \<Rightarrow> string \<Rightarrow> pydict \<Rightarrow> bool \<Rightarrow> nat list \<Rightarrow> (results \<times> event list) option" where
  "generate_all cfg w task_id data cb sched =
     (let results = empty_results in
      case prepare cfg w task_id data of
        (Inl e, ev) \<Rightarrow> Some (results\<lparr>err := Some e\<rparr>, ev)
      | (Inr s, ev) \<Rightarrow>
          (let n = length (base_videos_of s) * length (mixed_audio_files_of s);
               results = results\<lparr>total_variants := n\<rparr>;
               ev0 = ev @ (if cb then [Progress 0 n] else [])
           in if max_concurrent_jobs cfg < 0
              then Some (results\<lparr>err := Some (ValueError ''Semaphore initial value must be >= 0'')\<rparr>, ev0)
              else
                (let st = render_state cfg w task_id cb s sched
                 in if all_finished st
                    then Some (res st, ev0 @ emitted st @ [Rmtree (temp_dir_of s)])
                    else None)))"

section \<open>Speech synthesis with the silent fallback\<close>












section \<open>The mix matrix\<close>

text \<open>\<open>mix_succeeds\<close>: whether the mix of one enumerated pairing is built.\<close>

definition mix_succeeds :: "world \<Rightarrow> path \<Rightarrow> nat \<times> path \<times> path \<Rightarrow> bool" where
  "mix_succeeds w temp_dir ip = (case ip of (idx, audio, tts) \<Rightarrow> mix_ok w audio tts (mixed_path_of temp_dir idx))"

lemma mix_loop_filter:
  "fst (mix_loop w temp_dir k pairs) =
     map (\<lambda>ip. mixed_path_of temp_dir (fst ip)) (filter (mix_succeeds w temp_dir) (enumerate k pairs))"
proof (induction pairs arbitrary: k)
  case Nil
  then show ?case by simp
next
  case (Cons pr pairs)
  obtain audio tts where pr: "pr = (audio, tts)" by (cases pr)
  obtain ms ev where r: "mix_loop w temp_dir (Suc k) pairs = (ms, ev)"
    by (cases "mix_loop w temp_dir (Suc k) pairs")
  with Cons[of "Suc k"] have ms: "ms = map (\<lambda>ip. mixed_path_of temp_dir (fst ip))
       (filter (mix_succeeds w temp_dir) (enumerate (Suc k) pairs))" by simp
  have hd: "mix_succeeds w temp_dir (k, audio, tts) = mix_ok w audio tts (mixed_path_of temp_dir k)"
    by (simp add: mix_succeeds_def)
  show ?case
    by (simp add: pr r ms hd mix_audio_tracks_def Let_def)
qed

lemma create_audio_mixes_filter:
  "fst (create_audio_mixes w audio_files tts_files temp_dir) =
     map (\<lambda>ip. mixed_path_of temp_dir (fst ip))
       (filter (mix_succeeds w temp_dir) (enumerate 0 (List.product audio_files tts_files)))"
  by (simp add: create_audio_mixes_def mix_loop_filter)
lemma length_filter_eq_iff: "length (filter P xs) = length xs \<longleftrightarrow> list_all P xs"
proof
  assume "length (filter P xs) = length xs"
  then show "list_all P xs"
    using length_filter_less[of _ xs P] by (fastforce simp: list_all_iff)
next
  assume "list_all P xs"
  then have "filter P xs = xs" by (simp add: list_all_iff)
  then show "length (filter P xs) = length xs" by simp
qed


section \<open>The render stage: invariants of every schedule\<close>

text \<open>
  \<open>progress_values\<close> are the arguments of the progress callback, in call order.
  \<open>finished_units\<close> are the coroutines that have ended. \<open>unit_result c i\<close> is the entry
  variant \<open>i\<close> leaves when it ends: a URL record when the render and the upload succeed,
  its identity otherwise.
\<close>

fun progress_values :: "event list \<Rightarrow> (nat \<times> nat) list" where
  "progress_values [] = []"
| "progress_values (Progress k n # ev) = (k, n) # progress_values ev"
| "progress_values (_ # ev) = progress_values ev"

lemma progress_values_append: "progress_values (xs @ ys) = progress_values xs @ progress_values ys"
  by (induction xs rule: progress_values.induct) auto

definition finished_units :: "rstate \<Rightarrow> nat list" where
  "finished_units st = filter (\<lambda>i. phases st ! i = Finished) [0..<length (phases st)]"

definition unit_paths :: "closure \<Rightarrow> nat \<Rightarrow> string \<times> path \<times> path \<times> path \<times> string" where
  "unit_paths c i =
     (case c_tasks c ! i of
        (bname, base_video, mixed_audio, variant_num) \<Rightarrow>
          (let vid = variant_id (c_task_id c) bname variant_num
           in (vid, base_video, mixed_audio, c_temp_dir c @ ''/'' @ vid @ ''.mp4'',
               c_task_id c @ ''/'' @ vid @ ''.mp4'')))"

definition unit_rendered :: "closure \<Rightarrow> nat \<Rightarrow> bool" where
  "unit_rendered c i =
     (case unit_paths c i of
        (vid, base_video, mixed_audio, local_output_path, gcs_path) \<Rightarrow>
          fst (add_audio_to_video (c_world c) base_video mixed_audio local_output_path))"

definition unit_url :: "closure \<Rightarrow> nat \<Rightarrow> string option" where
  "unit_url c i =
     (case unit_paths c i of
        (vid, base_video, mixed_audio, local_output_path, gcs_path) \<Rightarrow>
          fst (upload_file (c_cfg c) (c_world c) local_output_path gcs_path))"

definition unit_result :: "closure \<Rightarrow> nat \<Rightarrow> (string \<times> string) + string" where
  "unit_result c i =
     (if unit_rendered c i \<and> truthy (unit_url c i)
      then Inl (fst (unit_paths c i) @ ''_url'', the (unit_url c i))
      else Inr (fst (unit_paths c i)))"

text \<open>
  The invariant of the render stage: the counter is the number of ended coroutines, the two
  result lists hold exactly the entries of the ended coroutines, and the callback has been
  called with 1, 2, ..., \<open>completed\<close>.
\<close>

definition render_inv :: "closure \<Rightarrow> rstate \<Rightarrow> bool" where
  "render_inv c st \<longleftrightarrow>
     length (phases st) = length (c_tasks c) \<and>
     completed st = length (finished_units st) \<and>
     mset (map Inl (successful (res st)) @ map Inr (failed (res st))) =
       mset (map (unit_result c) (finished_units st)) \<and>
     progress_values (emitted st) =
       (if c_callback c then map (\<lambda>k. (k, c_total c)) [1..<Suc (completed st)] else []) \<and>
     (\<forall>i < length (phases st). phases st ! i = Uploading \<longrightarrow> unit_rendered c i)"

lemma finished_units_update_other:
  assumes "i < length ps" and "ps ! i \<noteq> Finished" and "q \<noteq> Finished"
  shows "filter (\<lambda>k. ps[i := q] ! k = Finished) [0..<length ps]
       = filter (\<lambda>k. ps ! k = Finished) [0..<length ps]"
  using assms by (intro filter_cong) (auto simp: nth_list_update)

lemma count_filter_upt:
  "count (mset (filter P [0..<n])) x = (if x < n \<and> P x then 1 else 0)"
  by (induction n) (auto simp: less_Suc_eq)

lemma finished_units_update_finished:
  assumes "i < length ps" and "ps ! i \<noteq> Finished"
  shows "mset (filter (\<lambda>k. ps[i := Finished] ! k = Finished) [0..<length ps])
       = add_mset i (mset (filter (\<lambda>k. ps ! k = Finished) [0..<length ps]))"
proof (rule multiset_eqI)
  fix x
  have l: "count (mset (filter (\<lambda>k. ps[i := Finished] ! k = Finished) [0..<length ps])) x
         = (if x < length ps \<and> ps[i := Finished] ! x = Finished then 1 else 0)"
    by (rule count_filter_upt)
  have r: "count (mset (filter (\<lambda>k. ps ! k = Finished) [0..<length ps])) x
         = (if x < length ps \<and> ps ! x = Finished then 1 else 0)"
    by (rule count_filter_upt)
  show "count (mset (filter (\<lambda>k. ps[i := Finished] ! k = Finished) [0..<length ps])) x
      = count (add_mset i (mset (filter (\<lambda>k. ps ! k = Finished) [0..<length ps]))) x"
    unfolding count_add_mset l r using assms by (auto simp: nth_list_update)
qed

lemma advance_cases:
  assumes "advance c i st = Some st'"
  obtains
    (acquire) "i < length (phases st)" "i < length (c_tasks c)" "phases st ! i = Waiting"
      "int (holders st) < max_concurrent_jobs (c_cfg c)"
      "st' = st\<lparr>phases := (phases st)[i := Rendering]\<rparr>"
  | (rendered) "i < length (phases st)" "i < length (c_tasks c)" "phases st ! i = Rendering"
      "unit_rendered c i"
      "st' = st\<lparr>phases := (phases st)[i := Uploading],
                 emitted := emitted st @ [Render (fst (snd (unit_paths c i))) (fst (snd (snd (unit_paths c i))))
                    (fst (snd (snd (snd (unit_paths c i)))))]\<rparr>"
  | (render_failed) "i < length (phases st)" "i < length (c_tasks c)" "phases st ! i = Rendering"
      "\<not> unit_rendered c i"
      "st' = finish_unit c i (st\<lparr>res := (res st)\<lparr>failed := failed (res st) @ [fst (unit_paths c i)]\<rparr>,
                 emitted := emitted st @ [Render (fst (snd (unit_paths c i))) (fst (snd (snd (unit_paths c i))))
                    (fst (snd (snd (snd (unit_paths c i)))))]\<rparr>)"
  | (uploaded) "i < length (phases st)" "i < length (c_tasks c)" "phases st ! i = Uploading"
      "truthy (unit_url c i)"
      "st' = finish_unit c i (st\<lparr>res := (res st)\<lparr>successful := successful (res st) @
                    [(fst (unit_paths c i) @ ''_url'', the (unit_url c i))]\<rparr>,
                 emitted := emitted st @ [Upload (fst (snd (snd (snd (unit_paths c i))))) (snd (snd (snd (snd (unit_paths c i))))),
                    Unlink (fst (snd (snd (snd (unit_paths c i)))))]\<rparr>)"
  | (upload_failed) "i < length (phases st)" "i < length (c_tasks c)" "phases st ! i = Uploading"
      "\<not> truthy (unit_url c i)"
      "st' = finish_unit c i (st\<lparr>res := (res st)\<lparr>failed := failed (res st) @ [fst (unit_paths c i)]\<rparr>,
                 emitted := emitted st @ [Upload (fst (snd (snd (snd (unit_paths c i))))) (snd (snd (snd (snd (unit_paths c i))))),
                    Unlink (fst (snd (snd (snd (unit_paths c i)))))]\<rparr>)"
proof -
  from assms have i: "i < length (phases st)" "i < length (c_tasks c)"
    by (auto simp: advance_def split: if_splits)
  obtain bname base_video mixed_audio variant_num where
    t: "c_tasks c ! i = (bname, base_video, mixed_audio, variant_num)"
    by (cases "c_tasks c ! i") auto
  show ?thesis
  proof (cases "phases st ! i")
    case Waiting
    with assms i t show ?thesis
      by (intro acquire) (auto simp: advance_def Let_def split: if_splits)
  next
    case Rendering
    show ?thesis
    proof (cases "unit_rendered c i")
      case True
      with assms i t Rendering show ?thesis
        by (intro rendered)
           (auto simp: advance_def Let_def unit_rendered_def unit_paths_def add_audio_to_video_def)
    next
      case False
      with assms i t Rendering show ?thesis
        by (intro render_failed)
           (auto simp: advance_def Let_def unit_rendered_def unit_paths_def add_audio_to_video_def)
    qed
  next
    case Uploading
    show ?thesis
    proof (cases "truthy (unit_url c i)")
      case True
      with assms i t Uploading show ?thesis
        by (intro uploaded)
           (auto simp: advance_def Let_def unit_url_def unit_paths_def upload_file_def)
    next
      case False
      with assms i t Uploading show ?thesis
        by (intro upload_failed)
           (auto simp: advance_def Let_def unit_url_def unit_paths_def upload_file_def)
    qed
  next
    case Finished
    with assms i t show ?thesis by (simp add: advance_def)
  qed
qed


lemma finish_unit_simps:
  "phases (finish_unit c i st) = (phases st)[i := Finished]"
  "completed (finish_unit c i st) = Suc (completed st)"
  "res (finish_unit c i st) = res st"
  "emitted (finish_unit c i st) =
     emitted st @ (if c_callback c then [Progress (Suc (completed st)) (c_total c)] else [])"
  by (simp_all add: finish_unit_def)

lemma finished_units_finish:
  assumes "i < length (phases st)" and "phases st ! i \<noteq> Finished"
    and "phases st' = (phases st)[i := Finished]"
  shows "mset (finished_units st') = add_mset i (mset (finished_units st))"
    and "length (finished_units st') = Suc (length (finished_units st))"
proof -
  show m: "mset (finished_units st') = add_mset i (mset (finished_units st))"
    using assms finished_units_update_finished[of i "phases st"]
    by (simp add: finished_units_def)
  have "size (mset (finished_units st')) = Suc (size (mset (finished_units st)))"
    unfolding m by simp
  then show "length (finished_units st') = Suc (length (finished_units st))"
    by (simp only: size_mset)
qed

lemma finished_units_keep:
  assumes "i < length (phases st)" and "phases st ! i \<noteq> Finished" and "q \<noteq> Finished"
    and "phases st' = (phases st)[i := q]"
  shows "finished_units st' = finished_units st"
  using assms finished_units_update_other[of i "phases st" q]
  by (simp add: finished_units_def)

lemma progress_next:
  "map (\<lambda>k. (k, t)) [1..<Suc (Suc n)] = map (\<lambda>k. (k, t)) [1..<Suc n] @ [(Suc n, t :: nat)]"
  by simp

lemma render_inv_finish:
  assumes inv: "render_inv c st" and i: "i < length (phases st)" and nf: "phases st ! i \<noteq> Finished"
    and ph: "phases st' = (phases st)[i := Finished]"
    and co: "completed st' = Suc (completed st)"
    and em: "progress_values (emitted st') =
               progress_values (emitted st) @
                 (if c_callback c then [(Suc (completed st), c_total c)] else [])"
    and rs: "mset (map Inl (successful (res st')) @ map Inr (failed (res st'))) =
               add_mset (unit_result c i)
                 (mset (map Inl (successful (res st)) @ map Inr (failed (res st))))"
  shows "render_inv c st'"
proof -
  note fu = finished_units_finish[OF i nf ph]
  have len: "length (phases st') = length (c_tasks c)"
    using inv ph by (simp add: render_inv_def)
  have c1: "completed st' = length (finished_units st')"
    using inv co fu(2) by (simp add: render_inv_def)
  have "mset (map (unit_result c) (finished_units st'))
      = add_mset (unit_result c i) (mset (map (unit_result c) (finished_units st)))"
    using fu(1) by (metis image_mset_add_mset mset_map)
  then have c2: "mset (map Inl (successful (res st')) @ map Inr (failed (res st'))) =
                 mset (map (unit_result c) (finished_units st'))"
    using inv rs by (simp add: render_inv_def)
  have c3: "progress_values (emitted st') =
       (if c_callback c then map (\<lambda>k. (k, c_total c)) [1..<Suc (completed st')] else [])"
    using inv em unfolding co render_inv_def progress_next by simp
  have up: "\<forall>k < length (phases st). phases st ! k = Uploading \<longrightarrow> unit_rendered c k"
    using inv by (simp add: render_inv_def)
  have c4: "\<forall>k < length (phases st'). phases st' ! k = Uploading \<longrightarrow> unit_rendered c k"
  proof (intro allI impI)
    fix k assume k: "k < length (phases st')" "phases st' ! k = Uploading"
    then have "k \<noteq> i" using ph i by auto
    with k ph have "k < length (phases st)" "phases st ! k = Uploading" by simp_all
    with up show "unit_rendered c k" by blast
  qed
  from len c1 c2 c3 c4 show ?thesis
    unfolding render_inv_def by blast
qed

lemma render_inv_keep:
  assumes inv: "render_inv c st" and i: "i < length (phases st)" and nf: "phases st ! i \<noteq> Finished"
    and q: "q \<noteq> Finished" "q = Uploading \<longrightarrow> unit_rendered c i"
    and ph: "phases st' = (phases st)[i := q]"
    and co: "completed st' = completed st"
    and em: "progress_values (emitted st') = progress_values (emitted st)"
    and rs: "res st' = res st"
  shows "render_inv c st'"
proof -
  have fu: "finished_units st' = finished_units st"
    using i nf q(1) ph by (rule finished_units_keep)
  have up: "\<forall>k < length (phases st). phases st ! k = Uploading \<longrightarrow> unit_rendered c k"
    using inv by (simp add: render_inv_def)
  have c4: "\<forall>k < length (phases st'). phases st' ! k = Uploading \<longrightarrow> unit_rendered c k"
  proof (intro allI impI)
    fix k assume k: "k < length (phases st')" "phases st' ! k = Uploading"
    show "unit_rendered c k"
    proof (cases "k = i")
      case True
      with k ph i have "q = Uploading" by simp
      with q(2) True show ?thesis by simp
    next
      case False
      with k ph have "k < length (phases st)" "phases st ! k = Uploading" by simp_all
      with up show ?thesis by blast
    qed
  qed
  have len: "length (phases st') = length (c_tasks c)"
    using inv ph by (simp add: render_inv_def)
  from inv have "completed st = length (finished_units st)"
    and "mset (map Inl (successful (res st)) @ map Inr (failed (res st))) =
       mset (map (unit_result c) (finished_units st))"
    and "progress_values (emitted st) =
       (if c_callback c then map (\<lambda>k. (k, c_total c)) [1..<Suc (completed st)] else [])"
    unfolding render_inv_def by blast+
  with len c4 show ?thesis
    unfolding render_inv_def fu co em rs by blast
qed

lemma advance_inv:
  assumes inv: "render_inv c st" and adv: "advance c i st = Some st'"
  shows "render_inv c st'"
  using adv
proof (cases rule: advance_cases)
  case acquire
  then show ?thesis
    by (intro render_inv_keep[OF inv, of i Rendering]) simp_all
next
  case rendered
  then show ?thesis
    by (intro render_inv_keep[OF inv, of i Uploading]) (simp_all add: progress_values_append)
next
  case render_failed
  then have "unit_result c i = Inr (fst (unit_paths c i))"
    by (simp add: unit_result_def)
  with render_failed show ?thesis
    by (intro render_inv_finish[OF inv, of i]) (simp_all add: finish_unit_simps progress_values_append)
next
  case uploaded
  with inv have "unit_rendered c i" by (simp add: render_inv_def)
  with uploaded have "unit_result c i = Inl (fst (unit_paths c i) @ ''_url'', the (unit_url c i))"
    by (simp add: unit_result_def)
  with uploaded show ?thesis
    by (intro render_inv_finish[OF inv, of i]) (simp_all add: finish_unit_simps progress_values_append)
next
  case upload_failed
  then have "unit_result c i = Inr (fst (unit_paths c i))"
    by (simp add: unit_result_def)
  with upload_failed show ?thesis
    by (intro render_inv_finish[OF inv, of i]) (simp_all add: finish_unit_simps progress_values_append)
qed

lemma run_sched_inv: "render_inv c st \<Longrightarrow> render_inv c (run_sched c sched st)"
  by (induction sched arbitrary: st) (auto simp: advance_inv split: option.splits)

lemma render_inv_init:
  "successful r = [] \<Longrightarrow> failed r = [] \<Longrightarrow> render_inv c (init_rstate r (length (c_tasks c)))"
  by (simp add: render_inv_def init_rstate_def finished_units_def filter_empty_conv)


lemma all_finished_units:
  "all_finished st \<Longrightarrow> finished_units st = [0..<length (phases st)]"
  by (simp add: all_finished_def finished_units_def list_all_length)

lemma finished_units_all:
  assumes "length (finished_units st) = length (phases st)"
  shows "all_finished st"
proof -
  have "length (filter (\<lambda>i. phases st ! i = Finished) [0..<length (phases st)]) = length [0..<length (phases st)]"
    using assms by (simp add: finished_units_def)
  then have "list_all (\<lambda>i. phases st ! i = Finished) [0..<length (phases st)]"
    by (simp only: length_filter_eq_iff)
  then show ?thesis
    by (simp add: all_finished_def list_all_length)
qed

lemma length_make_tasks:
  "length (make_tasks base_videos mixed_audio_files) = length base_videos * length mixed_audio_files"
  by (simp add: make_tasks_def)

lemma make_tasks_nth:
  assumes "i < length (make_tasks base_videos mixed_audio_files)"
  shows "\<exists>bname base_video mixed_audio.
           make_tasks base_videos mixed_audio_files ! i = (bname, base_video, mixed_audio, Suc i)"
proof -
  from assms have i: "i < length (List.product base_videos mixed_audio_files)"
    by (simp add: make_tasks_def)
  obtain bname base_video mixed_audio where
    "List.product base_videos mixed_audio_files ! i = ((bname, base_video), mixed_audio)"
    by (metis surj_pair)
  with i show ?thesis
    by (simp add: make_tasks_def nth_enumerate_eq)
qed

lemma not_digit_v: "\<not> is_digit CHR ''v''"
  by (simp add: is_digit_def)

lemma digits_suffix_unique:
  assumes eq: "xs @ c # ds = xs' @ c' # ds'"
    and c: "\<not> is_digit c" "\<not> is_digit c'"
    and ds: "\<forall>d \<in> set ds. is_digit d" "\<forall>d \<in> set ds'. is_digit d"
  shows "ds = ds'"
proof -
  have "takeWhile is_digit (rev (xs @ c # ds)) = rev ds"
    using c(1) ds(1) by (simp add: takeWhile_tail)
  moreover have "takeWhile is_digit (rev (xs' @ c' # ds')) = rev ds'"
    using c(2) ds(2) by (simp add: takeWhile_tail)
  ultimately have "rev ds = rev ds'" using eq by simp
  then show ?thesis by simp
qed

lemma variant_id_inj:
  assumes "variant_id task_id bname n = variant_id task_id' bname' n'"
  shows "n = n'"
proof -
  from assms have "(task_id @ ''_'' @ bname @ ''_'') @ CHR ''v'' # str_nat n
                 = (task_id' @ ''_'' @ bname' @ ''_'') @ CHR ''v'' # str_nat n'"
    by (simp add: variant_id_def)
  then have "str_nat n = str_nat n'"
    by (rule digits_suffix_unique) (auto simp: not_digit_v str_nat_digits)
  then show ?thesis by (rule str_nat_inj)
qed


section \<open>The preparation stage\<close>

text \<open>A list of calls is silent when the progress callback is not among them.\<close>

definition silent :: "event list \<Rightarrow> bool" where
  "silent ev \<longleftrightarrow> (\<forall>k n. Progress k n \<notin> set ev)"

lemma silent_progress_values: "silent ev \<Longrightarrow> progress_values ev = []"
  unfolding silent_def by (induction ev rule: progress_values.induct) auto

lemma silent_simps [simp]:
  "silent []" "silent (xs @ ys) \<longleftrightarrow> silent xs \<and> silent ys"
  "silent (e # xs) \<longleftrightarrow> (\<forall>k n. e \<noteq> Progress k n) \<and> silent xs"
  by (auto simp: silent_def)

lemma silent_then_do:
  assumes "silent (snd m)" and "\<And>x. silent (snd (f x))"
  shows "silent (snd (then_do m f))"
proof (cases m)
  case (Pair r ev)
  show ?thesis
  proof (cases r)
    case (Inl e)
    with Pair assms show ?thesis by (simp add: then_do_def)
  next
    case (Inr x)
    obtain r' ev' where f: "f x = (r', ev')" by (cases "f x")
    with assms(2)[of x] have "silent ev'" by simp
    with Pair Inr f assms(1) show ?thesis by (simp add: then_do_def)
  qed
qed

lemma silent_download_file: "silent (snd (download_file w url p t))"
  by (simp add: download_file_def split: http_result.splits option.splits)

lemma silent_map_Probe: "silent (map Probe ps)"
  by (induction ps) auto

lemma silent_map_Unlink: "silent (map Unlink ps)"
  by (induction ps) auto

lemma silent_check_videos_compatible: "silent (snd (check_videos_compatible w ps))"
proof -
  have "concat (map snd (map (get_video_info w) ps)) = map Probe ps"
    by (induction ps) (auto simp: get_video_info_def)
  then show ?thesis
    by (simp add: check_videos_compatible_def Let_def silent_map_Probe)
qed

lemma silent_concatenate_videos: "silent (snd (concatenate_videos w ps out))"
proof -
  obtain c ev where cv: "check_videos_compatible w ps = (c, ev)"
    by (cases "check_videos_compatible w ps")
  with silent_check_videos_compatible[of w ps] have "silent ev" by simp
  then show ?thesis
    by (simp add: concatenate_videos_def cv concatenate_with_demuxer_def concatenate_with_filter_def)
qed

lemma silent_download_videos: "silent (snd (download_videos cfg w bname temp_dir idx us))"
proof (induction us arbitrary: idx)
  case Nil
  then show ?case by simp
next
  case (Cons url rest)
  obtain ok ev where d: "download_file w url (block_video_path temp_dir bname idx) (download_timeout cfg) = (ok, ev)"
    by (cases "download_file w url (block_video_path temp_dir bname idx) (download_timeout cfg)")
  with silent_download_file[of w url "block_video_path temp_dir bname idx" "download_timeout cfg"]
  have ev: "silent ev" by simp
  show ?case
  proof (cases ok)
    case True
    have "silent (snd (then_do (Inr (), ev) (\<lambda>_.
             then_do (download_videos cfg w bname temp_dir (Suc idx) rest) (\<lambda>downloaded.
               (Inr (block_video_path temp_dir bname idx # downloaded), [])))))"
      by (intro silent_then_do) (simp_all add: ev Cons)
    with True d show ?thesis by (simp add: Let_def)
  next
    case False
    with d ev show ?thesis by (simp add: Let_def)
  qed
qed

lemma silent_process_video_block: "silent (snd (process_video_block cfg w us bname temp_dir))"
  unfolding process_video_block_def Let_def
  by (intro silent_then_do) (simp_all add: silent_download_videos silent_concatenate_videos silent_map_Unlink)

lemma silent_blocks_loop: "silent (snd (blocks_loop cfg w temp_dir idx blocks))"
proof (induction blocks arbitrary: idx)
  case Nil
  then show ?case by simp
next
  case (Cons b rest)
  show ?case
    unfolding blocks_loop.simps Let_def
    by (intro silent_then_do) (simp_all add: silent_process_video_block Cons)
qed

lemma silent_audio_loop: "silent (snd (audio_loop cfg w temp_dir idx us))"
proof (induction us arbitrary: idx)
  case Nil
  then show ?case by simp
next
  case (Cons url rest)
  obtain ok ev where d: "download_file w url (audio_path_of temp_dir idx) (download_timeout cfg) = (ok, ev)"
    by (cases "download_file w url (audio_path_of temp_dir idx) (download_timeout cfg)")
  with silent_download_file[of w url "audio_path_of temp_dir idx" "download_timeout cfg"]
  have ev: "silent ev" by simp
  show ?case
  proof (cases ok)
    case True
    have "silent (snd (then_do (Inr (), ev) (\<lambda>_.
             then_do (audio_loop cfg w temp_dir (Suc idx) rest) (\<lambda>audio_files.
               (Inr (audio_path_of temp_dir idx # audio_files), [])))))"
      by (intro silent_then_do) (simp_all add: ev Cons)
    with True d show ?thesis by (simp add: Let_def)
  next
    case False
    with d ev show ?thesis by (simp add: Let_def)
  qed
qed

lemma silent_generate_speech: "silent (snd (generate_speech w tx voice p))"
  by (simp add: generate_speech_def split: sum.splits option.splits)

lemma silent_tts_loop: "silent (snd (tts_loop w temp_dir idx vcs))"
proof (induction vcs arbitrary: idx)
  case Nil
  then show ?case by simp
next
  case (Cons vc rest)
  show ?case
    unfolding tts_loop.simps Let_def
    by (auto split: sum.splits intro!: silent_then_do simp: silent_generate_speech Cons)
qed

lemma silent_mix_loop: "silent (snd (mix_loop w temp_dir idx pairs))"
proof (induction pairs arbitrary: idx)
  case Nil
  then show ?case by simp
next
  case (Cons pr pairs)
  obtain audio tts where pr: "pr = (audio, tts)" by (cases pr)
  obtain ms ev where r: "mix_loop w temp_dir (Suc idx) pairs = (ms, ev)"
    by (cases "mix_loop w temp_dir (Suc idx) pairs")
  with Cons[of "Suc idx"] have "silent ev" by simp
  then show ?case
    by (simp add: pr r mix_audio_tracks_def Let_def)
qed

text \<open>What a successful preparation has done.\<close>

lemma prepare_Inr:
  assumes "prepare cfg w task_id data = (Inr s, ev)"
  obtains video_blocks audio_urls voice_configs ev1 ev2 ev3 ev4 where
    "parse_blocks data = (video_blocks, audio_urls, voice_configs)"
    "video_blocks \<noteq> []" "audio_urls \<noteq> []" "voice_configs \<noteq> []"
    "temp_dir_of s = mkdtemp w (temp_prefix task_id)"
    "blocks_loop cfg w (temp_dir_of s) 0 video_blocks = (Inr (base_videos_of s), ev1)"
    "download_all_audio cfg w audio_urls (temp_dir_of s) = (Inr (audio_files_of s), ev2)"
    "generate_all_tts w voice_configs (temp_dir_of s) = (Inr (tts_files_of s), ev3)"
    "create_audio_mixes w (audio_files_of s) (tts_files_of s) (temp_dir_of s) = (mixed_audio_files_of s, ev4)"
    "ev = Mkdtemp (temp_prefix task_id) (temp_dir_of s) # ev1 @ ev2 @ ev3 @ ev4"
proof -
  obtain video_blocks audio_urls voice_configs where
    p: "parse_blocks data = (video_blocks, audio_urls, voice_configs)"
    by (cases "parse_blocks data") auto
  let ?tmp = "mkdtemp w (temp_prefix task_id)"
  from assms p have ne: "video_blocks \<noteq> []" "audio_urls \<noteq> []" "voice_configs \<noteq> []"
    by (auto simp: prepare_def split: if_splits)
  obtain r1 ev1 where b: "blocks_loop cfg w ?tmp 0 video_blocks = (r1, ev1)"
    by (cases "blocks_loop cfg w ?tmp 0 video_blocks")
  obtain r2 ev2 where a: "download_all_audio cfg w audio_urls ?tmp = (r2, ev2)"
    by (cases "download_all_audio cfg w audio_urls ?tmp")
  obtain r3 ev3 where t: "generate_all_tts w voice_configs ?tmp = (r3, ev3)"
    by (cases "generate_all_tts w voice_configs ?tmp")
  from assms p ne b obtain bvs where r1: "r1 = Inr bvs"
    by (cases r1) (auto simp: prepare_def then_do_def Let_def)
  from assms p ne b r1 a obtain afs where r2: "r2 = Inr afs"
    by (cases r2) (auto simp: prepare_def then_do_def Let_def)
  from assms p ne b r1 a r2 t obtain tfs where r3: "r3 = Inr tfs"
    by (cases r3) (auto simp: prepare_def then_do_def Let_def)
  obtain ms ev4 where m: "create_audio_mixes w afs tfs ?tmp = (ms, ev4)"
    by (cases "create_audio_mixes w afs tfs ?tmp")
  from assms p ne b r1 a r2 t r3 m have
    s: "s = \<lparr>temp_dir_of = ?tmp, base_videos_of = bvs, audio_files_of = afs, tts_files_of = tfs,
            mixed_audio_files_of = ms\<rparr>"
    and ev: "ev = Mkdtemp (temp_prefix task_id) ?tmp # ev1 @ ev2 @ ev3 @ ev4"
    by (auto simp: prepare_def then_do_def Let_def)
  show ?thesis
    by (rule that[of video_blocks audio_urls voice_configs ev1 ev2 ev3 ev4])
       (simp_all add: p ne s b r1 a r2 t r3 m ev)
qed

lemma silent_create_audio_mixes: "create_audio_mixes w afs tfs temp_dir = (ms, ev) \<Longrightarrow> silent ev"
  using silent_mix_loop[of w temp_dir 0 "List.product afs tfs"]
  by (simp add: create_audio_mixes_def)

lemma silent_prepare: "silent (snd (prepare cfg w task_id data))"
proof -
  obtain video_blocks audio_urls voice_configs where
    p: "parse_blocks data = (video_blocks, audio_urls, voice_configs)"
    by (cases "parse_blocks data") auto
  show ?thesis
    unfolding prepare_def p Let_def
    by (auto intro!: silent_then_do split: prod.splits
        simp: silent_blocks_loop download_all_audio_def silent_audio_loop
          generate_all_tts_def silent_tts_loop silent_create_audio_mixes)
qed


lemma blocks_loop_length:
  "blocks_loop cfg w temp_dir idx blocks = (Inr bvs, ev) \<Longrightarrow> length bvs = length blocks"
proof (induction blocks arbitrary: idx bvs ev)
  case Nil
  then show ?case by simp
next
  case (Cons b rest)
  from Cons.prems obtain p e1 rest_bvs e2 where
    "blocks_loop cfg w temp_dir (Suc idx) rest = (Inr rest_bvs, e2)"
    and "bvs = (''block'' @ str_nat (idx + 1), p) # rest_bvs"
    by (auto simp: then_do_def Let_def split: prod.splits sum.splits)
  with Cons.IH show ?case by auto
qed

lemma audio_loop_length:
  "audio_loop cfg w temp_dir idx us = (Inr afs, ev) \<Longrightarrow> length afs = length us"
proof (induction us arbitrary: idx afs ev)
  case Nil
  then show ?case by simp
next
  case (Cons u rest)
  from Cons.prems obtain rest_afs e2 where
    "audio_loop cfg w temp_dir (Suc idx) rest = (Inr rest_afs, e2)"
    and "afs = audio_path_of temp_dir idx # rest_afs"
    by (auto simp: then_do_def Let_def split: prod.splits sum.splits if_splits)
  with Cons.IH show ?case by auto
qed

lemma tts_loop_length:
  "tts_loop w temp_dir idx vcs = (Inr tfs, ev) \<Longrightarrow> length tfs = length vcs"
proof (induction vcs arbitrary: idx tfs ev)
  case Nil
  then show ?case by simp
next
  case (Cons vc rest)
  from Cons.prems obtain rest_tfs e2 where
    "tts_loop w temp_dir (Suc idx) rest = (Inr rest_tfs, e2)"
    and "tfs = tts_path temp_dir idx # rest_tfs"
    by (auto simp: then_do_def Let_def split: prod.splits sum.splits if_splits)
  with Cons.IH show ?case by auto
qed

lemma advance_res_fields:
  assumes "advance c i st = Some st'"
  shows "total_variants (res st') = total_variants (res st) \<and> err (res st') = err (res st)"
  using assms by (cases rule: advance_cases) (simp_all add: finish_unit_simps)

lemma run_sched_res_fields:
  "total_variants (res (run_sched c sched st)) = total_variants (res st) \<and>
   err (res (run_sched c sched st)) = err (res st)"
proof (induction sched arbitrary: st)
  case Nil
  then show ?case by simp
next
  case (Cons i sched)
  show ?case
  proof (cases "advance c i st")
    case None
    with Cons show ?thesis by simp
  next
    case (Some st')
    with Cons[of st'] advance_res_fields[OF Some] show ?thesis by simp
  qed
qed

lemma render_closure_simps:
  "c_callback (render_closure cfg w task_id cb s) = cb"
  "c_total (render_closure cfg w task_id cb s) = length (base_videos_of s) * length (mixed_audio_files_of s)"
  "c_tasks (render_closure cfg w task_id cb s) = make_tasks (base_videos_of s) (mixed_audio_files_of s)"
  "c_task_id (render_closure cfg w task_id cb s) = task_id"
  "c_cfg (render_closure cfg w task_id cb s) = cfg"
  by (simp_all add: render_closure_def)

lemma render_state_inv:
  "render_inv (render_closure cfg w task_id cb s) (render_state cfg w task_id cb s sched)"
  unfolding render_state_def Let_def
  by (intro run_sched_inv render_inv_init) (simp_all add: empty_results_def)

lemma render_state_fields:
  "total_variants (res (render_state cfg w task_id cb s sched)) =
     length (base_videos_of s) * length (mixed_audio_files_of s)"
  "err (res (render_state cfg w task_id cb s sched)) = None"
  "length (phases (render_state cfg w task_id cb s sched)) =
     length (base_videos_of s) * length (mixed_audio_files_of s)"
proof -
  show "total_variants (res (render_state cfg w task_id cb s sched)) =
     length (base_videos_of s) * length (mixed_audio_files_of s)"
    by (simp add: render_state_def Let_def run_sched_res_fields init_rstate_def render_closure_simps)
  show "err (res (render_state cfg w task_id cb s sched)) = None"
    by (simp add: render_state_def Let_def run_sched_res_fields init_rstate_def empty_results_def)
  show "length (phases (render_state cfg w task_id cb s sched)) =
     length (base_videos_of s) * length (mixed_audio_files_of s)"
    using render_state_inv[of cfg w task_id cb s sched]
    by (simp add: render_inv_def render_closure_simps length_make_tasks)
qed

text \<open>The shapes of a returned result: a failed preparation, a refused semaphore, a completed run.\<close>

lemma generate_all_cases:
  assumes "generate_all cfg w task_id data cb sched = Some (r, tr)"
  obtains
    (aborted) e where "prepare cfg w task_id data = (Inl e, tr)" "r = empty_results\<lparr>err := Some e\<rparr>"
  | (refused) s ev where "prepare cfg w task_id data = (Inr s, ev)" "max_concurrent_jobs cfg < 0"
      "r = empty_results\<lparr>total_variants := length (base_videos_of s) * length (mixed_audio_files_of s),
            err := Some (ValueError ''Semaphore initial value must be >= 0'')\<rparr>"
      "tr = ev @ (if cb then [Progress 0 (length (base_videos_of s) * length (mixed_audio_files_of s))] else [])"
  | (completed) s ev where "prepare cfg w task_id data = (Inr s, ev)" "0 \<le> max_concurrent_jobs cfg"
      "all_finished (render_state cfg w task_id cb s sched)"
      "r = res (render_state cfg w task_id cb s sched)"
      "tr = ev @ (if cb then [Progress 0 (length (base_videos_of s) * length (mixed_audio_files_of s))] else [])
              @ emitted (render_state cfg w task_id cb s sched) @ [Rmtree (temp_dir_of s)]"
proof -
  obtain p ev where p: "prepare cfg w task_id data = (p, ev)"
    by (cases "prepare cfg w task_id data")
  show ?thesis
  proof (cases p)
    case (Inl e)
    with assms p show ?thesis
      by (intro aborted[of e]) (auto simp: generate_all_def Let_def)
  next
    case (Inr s)
    show ?thesis
    proof (cases "max_concurrent_jobs cfg < 0")
      case True
      with assms p Inr show ?thesis
        by (intro refused[of s ev]) (auto simp: generate_all_def Let_def)
    next
      case False
      with assms p Inr show ?thesis
        by (intro completed[of s ev]) (auto simp: generate_all_def Let_def split: if_splits)
    qed
  qed
qed


section \<open>Progress, results and totals of generate_all\<close>

lemma render_progress:
  assumes prep: "prepare cfg w task_id data = (Inr s, ev)"
  shows "progress_values (ev @ [Progress 0 (length (base_videos_of s) * length (mixed_audio_files_of s))]
            @ emitted (render_state cfg w task_id True s sched))
         = map (\<lambda>k. (k, length (base_videos_of s) * length (mixed_audio_files_of s)))
             [0..<Suc (completed (render_state cfg w task_id True s sched))]"
proof -
  let ?st = "render_state cfg w task_id True s sched"
  let ?n = "length (base_videos_of s) * length (mixed_audio_files_of s)"
  have "silent ev" using silent_prepare[of cfg w task_id data] prep by simp
  then have e: "progress_values ev = []" by (rule silent_progress_values)
  have "progress_values (emitted ?st) = map (\<lambda>k. (k, ?n)) [1..<Suc (completed ?st)]"
    using render_state_inv[of cfg w task_id True s sched]
    by (simp add: render_inv_def render_closure_simps)
  then have "progress_values (ev @ [Progress 0 ?n] @ emitted ?st)
      = (0, ?n) # map (\<lambda>k. (k, ?n)) [Suc 0..<Suc (completed ?st)]"
    by (simp add: progress_values_append e)
  also have "\<dots> = map (\<lambda>k. (k, ?n)) (0 # [Suc 0..<Suc (completed ?st)])" by simp
  also have "0 # [Suc 0..<Suc (completed ?st)] = [0..<Suc (completed ?st)]"
    by (simp add: upt_conv_Cons)
  finally show ?thesis .
qed

lemma render_completed_count:
  "completed (render_state cfg w task_id cb s sched) = length (finished_units (render_state cfg w task_id cb s sched))"
  using render_state_inv[of cfg w task_id cb s sched] by (simp add: render_inv_def)

lemma render_completed_all:
  "completed (render_state cfg w task_id cb s sched) = length (base_videos_of s) * length (mixed_audio_files_of s)
     \<longleftrightarrow> all_finished (render_state cfg w task_id cb s sched)"
proof
  assume "completed (render_state cfg w task_id cb s sched) = length (base_videos_of s) * length (mixed_audio_files_of s)"
  then have "length (finished_units (render_state cfg w task_id cb s sched))
           = length (phases (render_state cfg w task_id cb s sched))"
    by (simp add: render_completed_count render_state_fields)
  then show "all_finished (render_state cfg w task_id cb s sched)"
    by (rule finished_units_all)
next
  assume "all_finished (render_state cfg w task_id cb s sched)"
  then have "finished_units (render_state cfg w task_id cb s sched)
           = [0..<length (phases (render_state cfg w task_id cb s sched))]"
    by (rule all_finished_units)
  then show "completed (render_state cfg w task_id cb s sched) = length (base_videos_of s) * length (mixed_audio_files_of s)"
    by (simp add: render_completed_count render_state_fields)
qed

lemma generate_all_progress:
  assumes "generate_all cfg w task_id data True sched = Some (r, tr)"
  shows "sorted (map fst (progress_values tr)) \<and>
         (err r = None \<longrightarrow> map fst (progress_values tr) = [0..<Suc (total_variants r)])"
  using assms
proof (cases rule: generate_all_cases)
  case (aborted e)
  then have "silent tr" using silent_prepare[of cfg w task_id data] by simp
  then have "progress_values tr = []" by (rule silent_progress_values)
  with aborted show ?thesis by simp
next
  case (refused s ev)
  then have "silent ev" using silent_prepare[of cfg w task_id data] by simp
  then have "progress_values ev = []" by (rule silent_progress_values)
  with refused show ?thesis by (simp add: progress_values_append)
next
  case (completed s ev)
  let ?st = "render_state cfg w task_id True s sched"
  let ?n = "length (base_videos_of s) * length (mixed_audio_files_of s)"
  have c: "completed ?st = ?n"
    using completed(3) by (simp add: render_completed_all)
  have "progress_values tr = progress_values (ev @ [Progress 0 ?n] @ emitted ?st)"
    using completed(5) by (simp add: progress_values_append)
  also have "\<dots> = map (\<lambda>k. (k, ?n)) [0..<Suc ?n]"
    using render_progress[OF completed(1), of sched] unfolding c .
  finally have p: "progress_values tr = map (\<lambda>k. (k, ?n)) [0..<Suc ?n]" .
  have t: "total_variants r = ?n"
    using completed(4) by (simp add: render_state_fields)
  have m: "map fst (progress_values tr) = [0..<Suc ?n]"
    unfolding p by (simp add: o_def)
  have so: "sorted (map fst (progress_values tr))"
    unfolding m by (rule sorted_upt)
  from m so show ?thesis unfolding t by blast
qed

text \<open>
  Claim C3. With a progress callback, at every point of the render stage (after any
  sequence of resumptions) the values passed to the callback so far are 0, 1, ...,
  \<open>completed\<close>, each with the same total: the sequence is non-decreasing and the counter has
  been raised exactly once for each coroutine that has ended, and it equals the total
  exactly when every coroutine has ended. For every returned result the reported values
  are sorted, and for a completed run they are exactly 0, 1, ..., total.
\<close>

theorem progress_reports:
  "(prepare cfg w task_id data = (Inr s, ev) \<longrightarrow>
      progress_values (ev @ [Progress 0 (length (base_videos_of s) * length (mixed_audio_files_of s))]
            @ emitted (render_state cfg w task_id True s sched))
        = map (\<lambda>k. (k, length (base_videos_of s) * length (mixed_audio_files_of s)))
            [0..<Suc (completed (render_state cfg w task_id True s sched))] \<and>
      completed (render_state cfg w task_id True s sched)
        = length (finished_units (render_state cfg w task_id True s sched)) \<and>
      (completed (render_state cfg w task_id True s sched)
          = length (base_videos_of s) * length (mixed_audio_files_of s)
        \<longleftrightarrow> all_finished (render_state cfg w task_id True s sched))) \<and>
   (generate_all cfg w task_id data True sched = Some (r, tr) \<longrightarrow>
      sorted (map fst (progress_values tr)) \<and>
      (err r = None \<longrightarrow> map fst (progress_values tr) = [0..<Suc (total_variants r)]))"
  using render_progress[of cfg w task_id data s ev sched]
    render_completed_count[of cfg w task_id True s sched]
    render_completed_all[of cfg w task_id True s sched]
    generate_all_progress[of cfg w task_id data sched r tr]
  by blast


text \<open>
  The identities of the variants a run attempts, in task order, and the key a variant has
  in a URL record of \<open>successful\<close>.
\<close>

definition task_variant_id :: "string \<Rightarrow> string \<times> path \<times> path \<times> nat \<Rightarrow> string" where
  "task_variant_id task_id t = (case t of (bname, base_video, mixed_audio, variant_num) \<Rightarrow>
     variant_id task_id bname variant_num)"

definition attempted_ids :: "config \<Rightarrow> world \<Rightarrow> string \<Rightarrow> pydict \<Rightarrow> string list" where
  "attempted_ids cfg w task_id data =
     (case prepare cfg w task_id data of
        (Inl e, ev) \<Rightarrow> []
      | (Inr s, ev) \<Rightarrow>
          map (task_variant_id task_id) (make_tasks (base_videos_of s) (mixed_audio_files_of s)))"

definition url_key :: "string \<Rightarrow> string" where
  "url_key vid = vid @ ''_url''"

definition entry_key :: "(string \<times> string) + string \<Rightarrow> string" where
  "entry_key e = (case e of Inl (k, u) \<Rightarrow> k | Inr vid \<Rightarrow> url_key vid)"

lemma unit_paths_fst:
  "fst (unit_paths c i) = task_variant_id (c_task_id c) (c_tasks c ! i)"
  by (simp add: unit_paths_def task_variant_id_def Let_def split: prod.splits)

lemma entry_key_unit_result:
  "entry_key (unit_result c i) = url_key (task_variant_id (c_task_id c) (c_tasks c ! i))"
  by (simp add: unit_result_def entry_key_def unit_paths_fst url_key_def)

lemma distinct_task_variant_ids:
  "distinct (map (task_variant_id task_id) (make_tasks base_videos mixed_audio_files))"
proof -
  let ?ts = "make_tasks base_videos mixed_audio_files"
  have "task_variant_id task_id (?ts ! i) \<noteq> task_variant_id task_id (?ts ! j)"
    if "i < length ?ts" "j < length ?ts" "i \<noteq> j" for i j
  proof
    assume eq: "task_variant_id task_id (?ts ! i) = task_variant_id task_id (?ts ! j)"
    from make_tasks_nth[OF that(1)] obtain b1 v1 m1 where t1: "?ts ! i = (b1, v1, m1, Suc i)" by blast
    from make_tasks_nth[OF that(2)] obtain b2 v2 m2 where t2: "?ts ! j = (b2, v2, m2, Suc j)" by blast
    from eq have "variant_id task_id b1 (Suc i) = variant_id task_id b2 (Suc j)"
      by (simp add: t1 t2 task_variant_id_def)
    then have "Suc i = Suc j" by (rule variant_id_inj)
    with that(3) show False by simp
  qed
  then show ?thesis
    by (simp add: distinct_conv_nth)
qed

lemma map_nth_fun: "map (\<lambda>i. f (xs ! i)) [0..<length xs] = map f xs"
proof -
  have "map (\<lambda>i. f (xs ! i)) [0..<length xs] = map f (map (\<lambda>i. xs ! i) [0..<length xs])"
    by (simp add: o_def)
  then show ?thesis by (simp only: map_nth)
qed

lemma completed_results:
  assumes fin: "all_finished (render_state cfg w task_id cb s sched)"
  shows "mset (map fst (successful (res (render_state cfg w task_id cb s sched))) @
               map url_key (failed (res (render_state cfg w task_id cb s sched))))
       = mset (map url_key (map (task_variant_id task_id) (make_tasks (base_videos_of s) (mixed_audio_files_of s))))"
proof -
  let ?st = "render_state cfg w task_id cb s sched"
  let ?c = "render_closure cfg w task_id cb s"
  let ?ts = "make_tasks (base_videos_of s) (mixed_audio_files_of s)"
  have inv: "render_inv ?c ?st" by (rule render_state_inv)
  have len: "length (phases ?st) = length ?ts"
    using inv by (simp add: render_inv_def render_closure_simps)
  have fu: "finished_units ?st = [0..<length ?ts]"
    using all_finished_units[OF fin] len by simp
  have "mset (map Inl (successful (res ?st)) @ map Inr (failed (res ?st)))
      = mset (map (unit_result ?c) [0..<length ?ts])"
    using inv unfolding render_inv_def fu by blast
  then have "image_mset entry_key (mset (map Inl (successful (res ?st)) @ map Inr (failed (res ?st))))
      = image_mset entry_key (mset (map (unit_result ?c) [0..<length ?ts]))"
    by simp
  then have A: "mset (map entry_key (map Inl (successful (res ?st)) @ map Inr (failed (res ?st))))
      = mset (map entry_key (map (unit_result ?c) [0..<length ?ts]))"
    by (simp only: mset_map)
  have B: "map entry_key (map Inl (successful (res ?st)) @ map Inr (failed (res ?st)))
      = map fst (successful (res ?st)) @ map url_key (failed (res ?st))"
    by (auto simp: entry_key_def)
  have "map entry_key (map (unit_result ?c) [0..<length ?ts])
      = map (\<lambda>i. (url_key \<circ> task_variant_id task_id) (?ts ! i)) [0..<length ?ts]"
    by (simp add: entry_key_unit_result render_closure_simps o_def)
  also have "\<dots> = map (url_key \<circ> task_variant_id task_id) ?ts"
    by (rule map_nth_fun)
  also have "\<dots> = map url_key (map (task_variant_id task_id) ?ts)"
    by simp
  finally have C: "map entry_key (map (unit_result ?c) [0..<length ?ts])
      = map url_key (map (task_variant_id task_id) ?ts)" .
  from A show ?thesis unfolding B C .
qed

lemma distinct_url_keys: "distinct vs \<Longrightarrow> distinct (map url_key vs)"
  by (simp add: distinct_map inj_on_def url_key_def)

lemma generate_all_partition:
  assumes gen: "generate_all cfg w task_id data cb sched = Some (r, tr)" and ok: "err r = None"
  shows "length (successful r) + length (failed r) = total_variants r \<and>
         length (attempted_ids cfg w task_id data) = total_variants r \<and>
         distinct (attempted_ids cfg w task_id data) \<and>
         mset (map fst (successful r) @ map url_key (failed r)) =
           mset (map url_key (attempted_ids cfg w task_id data)) \<and>
         distinct (map fst (successful r) @ map url_key (failed r))"
  using gen
proof (cases rule: generate_all_cases)
  case (aborted e)
  with ok show ?thesis by simp
next
  case (refused s ev)
  with ok show ?thesis by simp
next
  case (completed s ev)
  let ?st = "render_state cfg w task_id cb s sched"
  let ?ts = "make_tasks (base_videos_of s) (mixed_audio_files_of s)"
  have ids: "attempted_ids cfg w task_id data = map (task_variant_id task_id) ?ts"
    by (simp add: attempted_ids_def completed(1))
  have d: "distinct (attempted_ids cfg w task_id data)"
    unfolding ids by (rule distinct_task_variant_ids)
  have t: "total_variants r = length ?ts"
    using completed(4) by (simp add: render_state_fields length_make_tasks)
  have m: "mset (map fst (successful r) @ map url_key (failed r))
         = mset (map url_key (attempted_ids cfg w task_id data))"
    unfolding ids completed(4) by (rule completed_results[OF completed(3)])
  then have "size (mset (map fst (successful r) @ map url_key (failed r)))
           = size (mset (map url_key (attempted_ids cfg w task_id data)))"
    by simp
  then have l: "length (successful r) + length (failed r) = length ?ts"
    by (simp add: ids)
  have "distinct (map url_key (attempted_ids cfg w task_id data))"
    using d by (rule distinct_url_keys)
  then have dd: "distinct (map fst (successful r) @ map url_key (failed r))"
    using m by (metis mset_eq_imp_distinct_iff)
  from l t d m dd show ?thesis by (simp add: ids)
qed

text \<open>
  Claim C2. In every completed run the entries of \<open>successful\<close> (keyed by
  \<open>{variant_id}_url\<close>) and of \<open>failed\<close> (variant identities) together are exactly the
  attempted variants, each once: the identities are pairwise different, no variant is in
  both collections or twice in one, and the sizes sum to the total variant count.
\<close>

theorem results_partition:
  "generate_all cfg w task_id data cb sched = Some (r, tr) \<and> err r = None \<longrightarrow>
     length (successful r) + length (failed r) = total_variants r \<and>
     length (attempted_ids cfg w task_id data) = total_variants r \<and>
     distinct (attempted_ids cfg w task_id data) \<and>
     mset (map fst (successful r) @ map url_key (failed r)) =
       mset (map url_key (attempted_ids cfg w task_id data)) \<and>
     distinct (map fst (successful r) @ map url_key (failed r))"
  using generate_all_partition[of cfg w task_id data cb sched r tr] by blast

lemma prepare_counts:
  assumes prep: "prepare cfg w task_id data = (Inr s, ev)"
  shows "length (base_videos_of s) = length (fst (parse_blocks data)) \<and>
         length (audio_files_of s) = length (fst (snd (parse_blocks data))) \<and>
         length (tts_files_of s) = length (snd (snd (parse_blocks data))) \<and>
         mixed_audio_files_of s =
           map (\<lambda>ip. mixed_path_of (temp_dir_of s) (fst ip))
             (filter (mix_succeeds w (temp_dir_of s))
                (enumerate 0 (List.product (audio_files_of s) (tts_files_of s))))"
  using prep
proof (cases rule: prepare_Inr)
  case (1 video_blocks audio_urls voice_configs ev1 ev2 ev3 ev4)
  have a: "length (base_videos_of s) = length video_blocks"
    using 1(6) by (rule blocks_loop_length)
  have b: "length (audio_files_of s) = length audio_urls"
    using 1(7) unfolding download_all_audio_def by (rule audio_loop_length)
  have c: "length (tts_files_of s) = length voice_configs"
    using 1(8) unfolding generate_all_tts_def by (rule tts_loop_length)
  have d: "mixed_audio_files_of s = fst (create_audio_mixes w (audio_files_of s) (tts_files_of s) (temp_dir_of s))"
    using 1(9) by simp
  show ?thesis
    unfolding d create_audio_mixes_filter using a b c by (simp add: 1(1))
qed

lemma generate_all_total:
  assumes prep: "prepare cfg w task_id data = (Inr s, ev)"
    and gen: "generate_all cfg w task_id data cb sched = Some (r, tr)"
  shows "total_variants r = length (base_videos_of s) * length (mixed_audio_files_of s) \<and>
         (\<forall>kn \<in> set (progress_values tr). snd kn = total_variants r)"
  using gen
proof (cases rule: generate_all_cases)
  case (aborted e)
  with prep show ?thesis by simp
next
  case (refused s' ev')
  with prep have s: "s' = s" "ev' = ev" by simp_all
  have "silent ev" using silent_prepare[of cfg w task_id data] prep by simp
  then have "progress_values ev = []" by (rule silent_progress_values)
  with refused s show ?thesis by (simp add: progress_values_append)
next
  case (completed s' ev')
  with prep have s: "s' = s" "ev' = ev" by simp_all
  let ?st = "render_state cfg w task_id cb s sched"
  let ?n = "length (base_videos_of s) * length (mixed_audio_files_of s)"
  have t: "total_variants r = ?n"
    using completed(4) s by (simp add: render_state_fields)
  have "silent ev" using silent_prepare[of cfg w task_id data] prep by simp
  then have e: "progress_values ev = []" by (rule silent_progress_values)
  have p: "progress_values (emitted ?st) = (if cb then map (\<lambda>k. (k, ?n)) [1..<Suc (completed ?st)] else [])"
    using render_state_inv[of cfg w task_id cb s sched]
    by (simp add: render_inv_def render_closure_simps)
  have "\<forall>kn \<in> set (progress_values tr). snd kn = ?n"
    unfolding completed(5) s progress_values_append e p by auto
  with t show ?thesis by simp
qed

text \<open>
  Claim C1. For every run that reaches the render stage, the reported total is the
  number of concatenated blocks (one per parsed block) times the number of mixes built.
  The mixes built are the paths of exactly the pairings whose mix succeeds, in order, so
  their number is at most |audio files| times |voice files| (which are |audio URLs| and
  |voice lines|), with equality exactly when no mix fails; every progress report carries
  that total as its denominator.
\<close>

theorem total_is_blocks_times_mixes:
  "prepare cfg w task_id data = (Inr s, ev) \<and>
   generate_all cfg w task_id data cb sched = Some (r, tr) \<longrightarrow>
     total_variants r = length (base_videos_of s) * length (mixed_audio_files_of s) \<and>
     length (base_videos_of s) = length (fst (parse_blocks data)) \<and>
     length (audio_files_of s) = length (fst (snd (parse_blocks data))) \<and>
     length (tts_files_of s) = length (snd (snd (parse_blocks data))) \<and>
     mixed_audio_files_of s =
       map (\<lambda>ip. mixed_path_of (temp_dir_of s) (fst ip))
         (filter (mix_succeeds w (temp_dir_of s))
            (enumerate 0 (List.product (audio_files_of s) (tts_files_of s)))) \<and>
     length (mixed_audio_files_of s) \<le> length (audio_files_of s) * length (tts_files_of s) \<and>
     (length (mixed_audio_files_of s) = length (audio_files_of s) * length (tts_files_of s) \<longleftrightarrow>
        list_all (mix_succeeds w (temp_dir_of s))
          (enumerate 0 (List.product (audio_files_of s) (tts_files_of s)))) \<and>
     (\<forall>kn \<in> set (progress_values tr). snd kn = total_variants r)"
proof (intro impI, elim conjE)
  assume prep: "prepare cfg w task_id data = (Inr s, ev)"
    and gen: "generate_all cfg w task_id data cb sched = Some (r, tr)"
  let ?pairs = "enumerate 0 (List.product (audio_files_of s) (tts_files_of s))"
  note c = prepare_counts[OF prep]
  note t = generate_all_total[OF prep gen]
  have m: "mixed_audio_files_of s =
       map (\<lambda>ip. mixed_path_of (temp_dir_of s) (fst ip)) (filter (mix_succeeds w (temp_dir_of s)) ?pairs)"
    using c by blast
  have lp: "length ?pairs = length (audio_files_of s) * length (tts_files_of s)"
    by simp
  have lm: "length (mixed_audio_files_of s) = length (filter (mix_succeeds w (temp_dir_of s)) ?pairs)"
    by (subst m) simp
  have le: "length (mixed_audio_files_of s) \<le> length (audio_files_of s) * length (tts_files_of s)"
    unfolding lm lp[symmetric] by (rule length_filter_le)
  have eq: "length (mixed_audio_files_of s) = length (audio_files_of s) * length (tts_files_of s) \<longleftrightarrow>
        list_all (mix_succeeds w (temp_dir_of s)) ?pairs"
    unfolding lm lp[symmetric] by (rule length_filter_eq_iff)
  from c t le eq show "total_variants r = length (base_videos_of s) * length (mixed_audio_files_of s) \<and>
     length (base_videos_of s) = length (fst (parse_blocks data)) \<and>
     length (audio_files_of s) = length (fst (snd (parse_blocks data))) \<and>
     length (tts_files_of s) = length (snd (snd (parse_blocks data))) \<and>
     mixed_audio_files_of s =
       map (\<lambda>ip. mixed_path_of (temp_dir_of s) (fst ip))
         (filter (mix_succeeds w (temp_dir_of s)) ?pairs) \<and>
     length (mixed_audio_files_of s) \<le> length (audio_files_of s) * length (tts_files_of s) \<and>
     (length (mixed_audio_files_of s) = length (audio_files_of s) * length (tts_files_of s) \<longleftrightarrow>
        list_all (mix_succeeds w (temp_dir_of s)) ?pairs) \<and>
     (\<forall>kn \<in> set (progress_values tr). snd kn = total_variants r)"
    by blast
qed


section \<open>Concrete runs\<close>

text \<open>
  A request with one block, one background track and two voice lines (two variants), run
  with a concurrency budget of one, in a world where the second variant's render fails and
  in one where the second mix fails.
\<close>

definition cfg1 :: config where
  "cfg1 = \<lparr>max_concurrent_jobs = 1, download_timeout = 300, gcs_bucket_name = ''bucket''\<rparr>"

definition request_two_voices :: pydict where
  "request_two_voices =
     [(''task_name'', JStr ''demo''),
      (''block1'', JList [JStr ''http://h/v1.mp4'']),
      (''audio1'', JList [JStr ''http://h/a1.mp3'']),
      (''voice1'', JList [JObj [(''text'', JStr ''hi''), (''voice'', JStr ''Rachel'')],
                          JObj [(''text'', JStr ''ho''), (''voice'', JStr ''Rachel'')]])]"

definition world_render_fails :: world where
  "world_render_fails = world_ok\<lparr>render_ok := (\<lambda>v a out. a \<noteq> ''/tmp/task_t_x/mixed_1.mp3'')\<rparr>"


definition world_mix_fails :: world where
  "world_mix_fails = world_ok\<lparr>mix_ok := (\<lambda>a t out. out \<noteq> ''/tmp/task_t_x/mixed_1.mp3'')\<rparr>"

theorem results_partition_witness:
  "generate_all cfg1 world_render_fails ''t'' request_two_voices True [0, 0, 0, 1, 1] \<noteq> None \<and>
   fst (the (generate_all cfg1 world_render_fails ''t'' request_two_voices True [0, 0, 0, 1, 1])) =
     \<lparr>successful = [(''t_block1_v1_url'', ''https://storage.googleapis.com/bucket/t/t_block1_v1.mp4'')],
      failed = [''t_block1_v2''], total_variants = 2, urls = [], err = None\<rparr> \<and>
   attempted_ids cfg1 world_render_fails ''t'' request_two_voices = [''t_block1_v1'', ''t_block1_v2''] \<and>
   distinct (map fst (successful (fst (the (generate_all cfg1 world_render_fails ''t'' request_two_voices True [0, 0, 0, 1, 1]))))
             @ map url_key (failed (fst (the (generate_all cfg1 world_render_fails ''t'' request_two_voices True [0, 0, 0, 1, 1])))))"
proof -
  let ?g = "generate_all cfg1 world_render_fails ''t'' request_two_voices True [0, 0, 0, 1, 1]"
  have ne: "?g \<noteq> None" by code_simp
  have r: "fst (the ?g) =
     \<lparr>successful = [(''t_block1_v1_url'', ''https://storage.googleapis.com/bucket/t/t_block1_v1.mp4'')],
      failed = [''t_block1_v2''], total_variants = 2, urls = [], err = None\<rparr>"
    by code_simp
  have ids: "attempted_ids cfg1 world_render_fails ''t'' request_two_voices = [''t_block1_v1'', ''t_block1_v2'']"
    by code_simp
  from ne have g: "?g = Some (fst (the ?g), snd (the ?g))" by auto
  have e: "err (fst (the ?g)) = None" by (simp only: r) simp
  from results_partition[of cfg1 world_render_fails "''t''" request_two_voices True "[0, 0, 0, 1, 1]"
      "fst (the ?g)" "snd (the ?g)"] g e
  have "distinct (map fst (successful (fst (the ?g))) @ map url_key (failed (fst (the ?g))))"
    by blast
  with ne r ids show ?thesis by blast
qed

theorem progress_reports_witness:
  "prepare cfg1 world_render_fails ''t'' request_two_voices =
     (Inr (projr (fst (prepare cfg1 world_render_fails ''t'' request_two_voices))),
      snd (prepare cfg1 world_render_fails ''t'' request_two_voices)) \<and>
   completed (render_state cfg1 world_render_fails ''t'' True
      (projr (fst (prepare cfg1 world_render_fails ''t'' request_two_voices))) [0, 0, 1, 0]) = 1 \<and>
   \<not> all_finished (render_state cfg1 world_render_fails ''t'' True
      (projr (fst (prepare cfg1 world_render_fails ''t'' request_two_voices))) [0, 0, 1, 0]) \<and>
   progress_values (snd (prepare cfg1 world_render_fails ''t'' request_two_voices) @ [Progress 0 2] @
      emitted (render_state cfg1 world_render_fails ''t'' True
        (projr (fst (prepare cfg1 world_render_fails ''t'' request_two_voices))) [0, 0, 1, 0]))
     = [(0, 2), (1, 2)] \<and>
   generate_all cfg1 world_render_fails ''t'' request_two_voices True [0, 0, 0, 1, 1] \<noteq> None \<and>
   err (fst (the (generate_all cfg1 world_render_fails ''t'' request_two_voices True [0, 0, 0, 1, 1]))) = None \<and>
   map fst (progress_values (snd (the (generate_all cfg1 world_render_fails ''t'' request_two_voices True [0, 0, 0, 1, 1]))))
     = [0, 1, 2]"
proof -
  let ?p = "prepare cfg1 world_render_fails ''t'' request_two_voices"
  let ?s = "projr (fst ?p)"
  let ?st = "render_state cfg1 world_render_fails ''t'' True ?s [0, 0, 1, 0]"
  let ?g = "generate_all cfg1 world_render_fails ''t'' request_two_voices True [0, 0, 0, 1, 1]"
  have "\<not> isl (fst ?p)" by code_simp
  then have p: "?p = (Inr ?s, snd ?p)"
    by (metis prod.collapse sum.collapse(2))
  have n: "length (base_videos_of ?s) * length (mixed_audio_files_of ?s) = 2" by code_simp
  have c: "completed ?st = 1" by code_simp
  have nf: "\<not> all_finished ?st" by code_simp
  have ne: "?g \<noteq> None" by code_simp
  then have g: "?g = Some (fst (the ?g), snd (the ?g))" by auto
  have e: "err (fst (the ?g)) = None" by code_simp
  have t: "total_variants (fst (the ?g)) = 2" by code_simp
  have u: "[0..<Suc (Suc 0)] = [0, 1]" "[0..<Suc 2] = [0, 1, 2]" "[0..<3] = [0, 1, 2 :: nat]"
    by code_simp+
  from progress_reports[of cfg1 world_render_fails "''t''" request_two_voices ?s "snd ?p" "[0, 0, 1, 0]"]
    progress_reports[of cfg1 world_render_fails "''t''" request_two_voices ?s "snd ?p" "[0, 0, 0, 1, 1]"
      "fst (the ?g)" "snd (the ?g)"] p g e
  have "progress_values (snd ?p @ [Progress 0 (length (base_videos_of ?s) * length (mixed_audio_files_of ?s))]
            @ emitted ?st)
        = map (\<lambda>k. (k, length (base_videos_of ?s) * length (mixed_audio_files_of ?s))) [0..<Suc (completed ?st)]"
    and "map fst (progress_values (snd (the ?g))) = [0..<Suc (total_variants (fst (the ?g)))]"
    by blast+
  then have "progress_values (snd ?p @ [Progress 0 2] @ emitted ?st) = [(0, 2), (1, 2)]"
    and "map fst (progress_values (snd (the ?g))) = [0, 1, 2]"
    unfolding n c t by (simp_all add: u)
  with p c nf ne e show ?thesis by blast
qed

theorem total_is_blocks_times_mixes_witness:
  "prepare cfg1 world_mix_fails ''t'' request_two_voices =
     (Inr (projr (fst (prepare cfg1 world_mix_fails ''t'' request_two_voices))),
      snd (prepare cfg1 world_mix_fails ''t'' request_two_voices)) \<and>
   generate_all cfg1 world_mix_fails ''t'' request_two_voices True [0, 0, 0] \<noteq> None \<and>
   length (audio_files_of (projr (fst (prepare cfg1 world_mix_fails ''t'' request_two_voices)))) = 1 \<and>
   length (tts_files_of (projr (fst (prepare cfg1 world_mix_fails ''t'' request_two_voices)))) = 2 \<and>
   mixed_audio_files_of (projr (fst (prepare cfg1 world_mix_fails ''t'' request_two_voices)))
     = [''/tmp/task_t_x/mixed_0.mp3''] \<and>
   total_variants (fst (the (generate_all cfg1 world_mix_fails ''t'' request_two_voices True [0, 0, 0]))) = 1 \<and>
   progress_values (snd (the (generate_all cfg1 world_mix_fails ''t'' request_two_voices True [0, 0, 0])))
     = [(0, 1), (1, 1)]"
proof -
  let ?p = "prepare cfg1 world_mix_fails ''t'' request_two_voices"
  let ?s = "projr (fst ?p)"
  let ?g = "generate_all cfg1 world_mix_fails ''t'' request_two_voices True [0, 0, 0]"
  have "\<not> isl (fst ?p)" by code_simp
  then have p: "?p = (Inr ?s, snd ?p)"
    by (metis prod.collapse sum.collapse(2))
  have ne: "?g \<noteq> None" by code_simp
  then have g: "?g = Some (fst (the ?g), snd (the ?g))" by auto
  have a: "length (audio_files_of ?s) = 1" by code_simp
  have v: "length (tts_files_of ?s) = 2" by code_simp
  have b: "length (base_videos_of ?s) = 1" by code_simp
  have m: "mixed_audio_files_of ?s = [''/tmp/task_t_x/mixed_0.mp3'']" by code_simp
  have pv: "progress_values (snd (the ?g)) = [(0, 1), (1, 1)]" by code_simp
  from total_is_blocks_times_mixes[of cfg1 world_mix_fails "''t''" request_two_voices ?s "snd ?p"
      True "[0, 0, 0]" "fst (the ?g)" "snd (the ?g)"] p g
  have "total_variants (fst (the ?g)) = length (base_videos_of ?s) * length (mixed_audio_files_of ?s)"
    by blast
  then have "total_variants (fst (the ?g)) = 1"
    unfolding b m by simp
  with p ne a v m pv show ?thesis by blast
qed


section \<open>The render stage ends\<close>










text \<open>With a semaphore of zero slots and at least one variant the render stage never ends.\<close>

lemma advance_zero_slots:
  assumes "max_concurrent_jobs (c_cfg c) = 0" and "\<forall>p \<in> set (phases st). p = Waiting"
  shows "advance c i st = None"
proof (rule ccontr)
  assume "advance c i st \<noteq> None"
  then obtain st' where a: "advance c i st = Some st'" by auto
  from a show False
  proof (cases rule: advance_cases)
    case acquire
    with assms(1) show False by simp
  next
    case rendered
    with assms(2) nth_mem[of i "phases st"] show False by auto
  next
    case render_failed
    with assms(2) nth_mem[of i "phases st"] show False by auto
  next
    case uploaded
    with assms(2) nth_mem[of i "phases st"] show False by auto
  next
    case upload_failed
    with assms(2) nth_mem[of i "phases st"] show False by auto
  qed
qed

lemma run_sched_zero_slots:
  assumes "max_concurrent_jobs (c_cfg c) = 0" and "\<forall>p \<in> set (phases st). p = Waiting"
  shows "run_sched c sched st = st"
  using assms(2) by (induction sched) (simp_all add: advance_zero_slots[OF assms(1)])

lemma generate_all_zero_slots:
  assumes "max_concurrent_jobs cfg = 0" and "prepare cfg w task_id data = (Inr s, ev)"
    and "0 < length (base_videos_of s) * length (mixed_audio_files_of s)"
  shows "generate_all cfg w task_id data cb sched = None"
proof -
  let ?c = "render_closure cfg w task_id cb s"
  let ?n = "length (base_videos_of s) * length (mixed_audio_files_of s)"
  have "render_state cfg w task_id cb s sched
      = init_rstate (empty_results\<lparr>total_variants := c_total ?c\<rparr>) (length (c_tasks ?c))"
    unfolding render_state_def Let_def
    by (rule run_sched_zero_slots) (simp_all add: render_closure_simps assms(1) init_rstate_def)
  then have "phases (render_state cfg w task_id cb s sched) = replicate ?n Waiting"
    by (simp add: init_rstate_def render_closure_simps length_make_tasks)
  with assms(3) have "\<not> all_finished (render_state cfg w task_id cb s sched)"
    by (cases ?n) (simp_all add: all_finished_def)
  with assms(1,2) show ?thesis by (simp add: generate_all_def Let_def)
qed









section \<open>The temporary directory\<close>

text \<open>
  \<open>shutil.rmtree\<close> is the last statement of the \<open>try\<close> block of \<open>generate_all\<close>, so
  an exception raised after \<open>mkdtemp\<close> skips it. In the run below the only video of
  \<open>block1\<close> answers 404.
\<close>

definition request_missing_video :: pydict where
  "request_missing_video =
     [(''task_name'', JStr ''demo''),
      (''block1'', JList [JStr ''http://h/missing.mp4'']),
      (''audio1'', JList [JStr ''http://h/a1.mp3'']),
      (''voice1'', JList [JObj [(''text'', JStr ''hi''), (''voice'', JStr ''Rachel'')]])]"

definition world_404 :: world where
  "world_404 = world_ok\<lparr>http_get := (\<lambda>url dest.
     if url = JStr ''http://h/missing.mp4'' then Response 404 None else Response 200 (Some ''data''))\<rparr>"

text \<open>
  Claim C5 (the temporary directory is removed whatever the outcome) fails on the code. At
  this input the directory is created, the download fails, and \<open>generate_all\<close> returns the
  error under every schedule; the calls made are \<open>mkdtemp\<close> and one GET, and no \<open>rmtree\<close>.
\<close>

theorem temp_dir_left_after_fetch_failure:
  "generate_all cfg1 world_404 ''t'' request_missing_video True sched =
     Some (empty_results\<lparr>err := Some (Exception ''Failed to download block1 video 0'')\<rparr>,
           [Mkdtemp ''task_t_'' ''/tmp/task_t_x'', HttpGet (JStr ''http://h/missing.mp4'') 300])"
proof -
  have "prepare cfg1 world_404 ''t'' request_missing_video =
     (Inl (Exception ''Failed to download block1 video 0''),
      [Mkdtemp ''task_t_'' ''/tmp/task_t_x'', HttpGet (JStr ''http://h/missing.mp4'') 300])"
    by code_simp
  then show ?thesis by (simp add: generate_all_def)
qed

text \<open>A run that completes does remove the directory, as its last call.\<close>

lemma completed_run_cleans_up:
  assumes "generate_all cfg w task_id data cb sched = Some (r, tr)" and "err r = None"
  shows "\<exists>s ev. prepare cfg w task_id data = (Inr s, ev) \<and> last tr = Rmtree (temp_dir_of s)"
  using assms(1)
proof (cases rule: generate_all_cases)
  case (aborted e)
  with assms(2) show ?thesis by simp
next
  case (refused s ev)
  with assms(2) show ?thesis by simp
next
  case (completed s ev)
  then show ?thesis by simp
qed


end
